theory Spec2Isabelle
  imports Main "HOL-Library.Word" "HOL-Library.Signed_Division"
begin

section \<open>The render\_timer object\<close>

text \<open>
  The class \<open>render_timer\<close> of \<open>render_timer.h\<close>, in the version that carries the
  class documentation (the one whose \<open>timer_loop\<close> corrects the interval);
  \<open>start\<close>, \<open>stop\<close>, \<open>set_fps\<close>, \<open>can_render\<close> and
  \<open>get_render_interval\<close> are the same in both versions of the file.

  The C++ type \<open>int\<close> is a 32-bit two's complement word; the representation of
  \<open>std::chrono::milliseconds\<close> and of the clock's time points (nanoseconds) is a 64-bit
  two's complement word (\<open>high_resolution_clock\<close> counts nanoseconds). Signed readings
  are taken with \<open>sint\<close>, signed comparison is \<open><s\<close>, and division truncates
  towards zero as C++ division does.
\<close>

type_synonym cint = "32 word"
type_synonym i64 = "64 word"

definition int_div :: "cint \<Rightarrow> cint \<Rightarrow> cint" where
  "int_div a b = word_of_int (sint a sdiv sint b)"

text \<open>
  The data members of \<open>class render_timer\<close>. \<open>m_render_ready\<close> is the
  \<open>std::atomic_flag\<close> (\<open>ATOMIC_FLAG_INIT\<close> is clear). \<open>m_thread\<close> is the
  \<open>std::thread\<close> handle: \<open>Some i\<close> when it is joinable and owns background thread
  \<open>i\<close>, \<open>None\<close> when it owns no thread. \<open>m_mutex\<close> and \<open>m_cv\<close> carry no data of
  their own: the mutex is only held inside one atomic step of the model below, and the
  threads blocked on the condition variable are the consumers whose program counter is
  \<open>C_waiting\<close>.
\<close>

record render_timer =
  m_fps :: cint
  m_render_interval :: cint
  m_running :: bool
  m_start_time :: i64
  m_render_ready :: bool
  m_thread :: "nat option"

text \<open>
  The constructor. The members are initialised in declaration order, so \<open>m_fps\<close> is 60
  when \<open>1000 / m_fps\<close> is computed. The argument is the clock reading
  \<open>high_resolution_clock::now()\<close>.
\<close>

definition render_timer :: "i64 \<Rightarrow> render_timer" where
  "render_timer now =
     (let fps = 60 in
      \<lparr>m_fps = fps, m_render_interval = int_div 1000 fps, m_running = False,
       m_start_time = now, m_render_ready = False, m_thread = None\<rparr>)"

definition set_fps :: "render_timer \<Rightarrow> cint \<Rightarrow> render_timer" where
  "set_fps t fps =
     (if 0 <s fps \<and> fps \<noteq> m_fps t
      then (let t1 = t\<lparr>m_fps := fps\<rparr> in t1\<lparr>m_render_interval := int_div 1000 (m_fps t1)\<rparr>)
      else t)"

definition get_render_interval :: "render_timer \<Rightarrow> cint" where
  "get_render_interval t = m_render_interval t"

text \<open>\<open>std::atomic_flag::test_and_set\<close> and \<open>clear\<close> on \<open>m_render_ready\<close>.\<close>

definition test_and_set :: "render_timer \<Rightarrow> bool \<times> render_timer" where
  "test_and_set t = (m_render_ready t, t\<lparr>m_render_ready := True\<rparr>)"

definition clear :: "render_timer \<Rightarrow> render_timer" where
  "clear t = t\<lparr>m_render_ready := False\<rparr>"

text \<open>
  \<open>duration_cast<milliseconds>(frame_end - frame_start)\<close>: the difference of two
  nanosecond readings, divided by \<open>10^6\<close> with truncation.
\<close>

definition frame_duration_ms :: "i64 \<Rightarrow> i64 \<Rightarrow> i64" where
  "frame_duration_ms frame_start frame_end =
     word_of_int (sint (frame_end - frame_start) sdiv 1000000)"

section \<open>The threads\<close>

text \<open>
  The program runs as an interleaving of atomic steps of three kinds of threads: host
  threads calling \<open>start\<close>, \<open>stop\<close> and \<open>set_fps\<close>, consumer threads calling
  \<open>can_render\<close>, and the background threads running \<open>timer_loop\<close>. Each thread has
  a program counter. A step is one access to shared state, or one critical section under
  \<open>m_mutex\<close> (the critical sections only touch \<open>m_render_ready\<close> and the wait set of
  \<open>m_cv\<close>, and \<open>m_cv.wait\<close> releases the mutex and blocks atomically).

  \<open>m_render_interval\<close> is a plain \<open>int\<close> that \<open>timer_loop\<close> reads and writes
  without synchronisation while \<open>set_fps\<close> writes it: every read and every write of it
  by the loop is a step of its own, so that a \<open>set_fps\<close> can fall between any two of
  them. \<open>set_fps\<close> itself is one step: the loop never reads \<open>m_fps\<close>, so the
  guard and the store to \<open>m_fps\<close> commute with every step of the loop and can be taken
  at the moment of the store to \<open>m_render_interval\<close>. Calls of \<open>set_fps\<close> are
  taken one after the other.
\<close>

datatype host_pc = H_idle | H_start_launch | H_stop_notify | H_stop_join

datatype consumer_pc = C_idle | C_waiting | C_woken

datatype loop_pc =
  L_check | L_tick | L_notify | L_adjust | L_extra | L_load | L_store | L_sleep | L_done

text \<open>
  The program counter and the local variables of \<open>timer_loop\<close>; \<open>loaded\<close> is the
  value of \<open>m_render_interval\<close> that \<open>-=\<close> has read and not yet written back.
\<close>

record loop_thread =
  lpc :: loop_pc
  frame_start :: i64
  frame_end :: i64
  frame_duration :: i64
  sleep_duration :: i64
  extra_duration :: i64
  loaded :: cint
  last_frame_end :: i64

text \<open>
  \<open>Terminate\<close>: a \<open>std::thread\<close> is assigned to \<open>m_thread\<close> while it is joinable
  (\<open>std::terminate\<close>). \<open>System_error\<close>: \<open>m_thread.join()\<close> on a handle that is not
  joinable throws \<open>std::system_error\<close>.
\<close>

datatype fault = Terminate | System_error

text \<open>
  \<open>returned c\<close> counts the calls of \<open>can_render\<close> by consumer \<open>c\<close> that have returned
  (each returns \<open>true\<close>); \<open>ticks\<close> counts the iterations of \<open>timer_loop\<close> that have
  marked the frame ready. Both are observations, not members of the class.
\<close>

record system =
  timer :: render_timer
  hosts :: "nat \<Rightarrow> host_pc"
  consumers :: "nat \<Rightarrow> consumer_pc"
  returned :: "nat \<Rightarrow> nat"
  loops :: "loop_thread list"
  ticks :: nat
  fault :: "fault option"

definition init :: "i64 \<Rightarrow> system" where
  "init now =
     \<lparr>timer = render_timer now, hosts = (\<lambda>_. H_idle), consumers = (\<lambda>_. C_idle),
      returned = (\<lambda>_. 0), loops = [], ticks = 0, fault = None\<rparr>"

text \<open>\<open>m_cv.notify_all()\<close>: every thread blocked in \<open>m_cv.wait\<close> is woken.\<close>

definition notify_all :: "system \<Rightarrow> system" where
  "notify_all s =
     s\<lparr>consumers := (\<lambda>c. if consumers s c = C_waiting then C_woken else consumers s c)\<rparr>"

subsection \<open>start and stop\<close>

text \<open>\<open>start\<close>, first step: \<open>m_running.exchange(true)\<close>; the call returns when it was set.\<close>

definition start_exchange :: "nat \<Rightarrow> system \<Rightarrow> system option" where
  "start_exchange h s =
     (if hosts s h \<noteq> H_idle then None
      else (let old = m_running (timer s);
                s1 = s\<lparr>timer := (timer s)\<lparr>m_running := True\<rparr>\<rparr>
            in Some (if \<not> old then s1\<lparr>hosts := (hosts s1)(h := H_start_launch)\<rparr> else s1)))"

text \<open>
  \<open>start\<close>, second step: \<open>m_start_time = now()\<close> and
  \<open>m_thread = std::thread(&render_timer::timer_loop, this)\<close>. The new thread begins with
  \<open>last_frame_end = m_start_time\<close> and stands before the loop condition.
\<close>

definition start_launch :: "nat \<Rightarrow> i64 \<Rightarrow> system \<Rightarrow> system option" where
  "start_launch h now s =
     (if hosts s h \<noteq> H_start_launch then None
      else (let s1 = s\<lparr>timer := (timer s)\<lparr>m_start_time := now\<rparr>\<rparr> in
            case m_thread (timer s1) of
              Some i \<Rightarrow> Some (s1\<lparr>fault := Some Terminate\<rparr>)
            | None \<Rightarrow>
                Some (s1\<lparr>loops := loops s1 @
                             [\<lparr>lpc = L_check, frame_start = 0, frame_end = 0,
                               frame_duration = 0, sleep_duration = 0, extra_duration = 0,
                               loaded = 0, last_frame_end = now\<rparr>],
                         timer := (timer s1)\<lparr>m_thread := Some (length (loops s1))\<rparr>,
                         hosts := (hosts s1)(h := H_idle)\<rparr>)))"

text \<open>\<open>stop\<close>, first step: \<open>m_running.exchange(false)\<close>; the call returns when it was clear.\<close>

definition stop_exchange :: "nat \<Rightarrow> system \<Rightarrow> system option" where
  "stop_exchange h s =
     (if hosts s h \<noteq> H_idle then None
      else (let old = m_running (timer s);
                s1 = s\<lparr>timer := (timer s)\<lparr>m_running := False\<rparr>\<rparr>
            in Some (if old then s1\<lparr>hosts := (hosts s1)(h := H_stop_notify)\<rparr> else s1)))"

text \<open>\<open>stop\<close>, second step: \<open>m_cv.notify_all()\<close>.\<close>

definition stop_notify :: "nat \<Rightarrow> system \<Rightarrow> system option" where
  "stop_notify h s =
     (if hosts s h \<noteq> H_stop_notify then None
      else (let s1 = notify_all s in Some (s1\<lparr>hosts := (hosts s1)(h := H_stop_join)\<rparr>)))"

text \<open>
  \<open>stop\<close>, third step: \<open>m_thread.join()\<close>. The step is not enabled while the joined
  thread has not left \<open>timer_loop\<close>: the caller is blocked.
\<close>

definition stop_join :: "nat \<Rightarrow> system \<Rightarrow> system option" where
  "stop_join h s =
     (if hosts s h \<noteq> H_stop_join then None
      else (case m_thread (timer s) of
              None \<Rightarrow> Some (s\<lparr>fault := Some System_error\<rparr>)
            | Some i \<Rightarrow>
                if i < length (loops s) \<and> lpc (loops s ! i) = L_done
                then Some (s\<lparr>timer := (timer s)\<lparr>m_thread := None\<rparr>,
                             hosts := (hosts s)(h := H_idle)\<rparr>)
                else None))"

subsection \<open>can\_render\<close>

text \<open>
  \<open>m_cv.wait(lock, pred)\<close> is \<open>while (!pred()) wait(lock)\<close> with
  \<open>pred = m_render_ready.test_and_set()\<close>. One evaluation of the predicate under the
  mutex: when it holds, the call goes on to \<open>m_render_ready.clear()\<close> and
  \<open>return true\<close>; when it does not, the thread blocks in \<open>wait\<close>. The same code runs
  when the call is entered and when the thread has been woken.
\<close>

definition can_render_pred :: "nat \<Rightarrow> system \<Rightarrow> system" where
  "can_render_pred c s =
     (let (p, t1) = test_and_set (timer s) in
      if p then s\<lparr>timer := clear t1, consumers := (consumers s)(c := C_idle),
                  returned := (returned s)(c := returned s c + 1)\<rparr>
      else s\<lparr>timer := t1, consumers := (consumers s)(c := C_waiting)\<rparr>)"

definition can_render :: "nat \<Rightarrow> system \<Rightarrow> system option" where
  "can_render c s =
     (if consumers s c \<noteq> C_idle then None else Some (can_render_pred c s))"

definition can_render_woken :: "nat \<Rightarrow> system \<Rightarrow> system option" where
  "can_render_woken c s =
     (if consumers s c \<noteq> C_woken then None else Some (can_render_pred c s))"

text \<open>A spurious wakeup of \<open>m_cv.wait\<close>, which the C++ standard allows.\<close>

definition spurious_wakeup :: "nat \<Rightarrow> system \<Rightarrow> system option" where
  "spurious_wakeup c s =
     (if consumers s c \<noteq> C_waiting then None
      else Some (s\<lparr>consumers := (consumers s)(c := C_woken)\<rparr>))"

subsection \<open>timer\_loop\<close>

definition loop_at :: "nat \<Rightarrow> loop_pc \<Rightarrow> system \<Rightarrow> bool" where
  "loop_at i pc s \<longleftrightarrow> i < length (loops s) \<and> lpc (loops s ! i) = pc"

definition set_lpc :: "nat \<Rightarrow> loop_pc \<Rightarrow> system \<Rightarrow> system" where
  "set_lpc i pc s = s\<lparr>loops := (loops s)[i := (loops s ! i)\<lparr>lpc := pc\<rparr>]\<rparr>"

text \<open>\<open>while (m_running.load())\<close>: enter the body, or leave the thread function.\<close>

definition loop_check :: "nat \<Rightarrow> system \<Rightarrow> system option" where
  "loop_check i s =
     (if \<not> loop_at i L_check s then None
      else Some (set_lpc i (if m_running (timer s) then L_tick else L_done) s))"

text \<open>
  \<open>frame_start = now()\<close> and the critical section
  \<open>{ lock_guard lock(m_mutex); m_render_ready.test_and_set(); }\<close>.
\<close>

definition loop_tick :: "nat \<Rightarrow> i64 \<Rightarrow> system \<Rightarrow> system option" where
  "loop_tick i now s =
     (if \<not> loop_at i L_tick s then None
      else (let s1 = s\<lparr>loops := (loops s)[i := (loops s ! i)\<lparr>frame_start := now\<rparr>]\<rparr>;
                (p, t1) = test_and_set (timer s1)
            in Some (set_lpc i L_notify (s1\<lparr>timer := t1, ticks := ticks s1 + 1\<rparr>))))"

definition loop_notify :: "nat \<Rightarrow> system \<Rightarrow> system option" where
  "loop_notify i s =
     (if \<not> loop_at i L_notify s then None
      else Some (set_lpc i L_adjust (notify_all s)))"

text \<open>
  \<open>frame_end = now()\<close>, \<open>frame_duration\<close>, and
  \<open>sleep_duration = milliseconds(m_render_interval) - frame_duration\<close> (the first read of
  the interval).
\<close>

definition loop_adjust :: "nat \<Rightarrow> i64 \<Rightarrow> system \<Rightarrow> system option" where
  "loop_adjust i now s =
     (if \<not> loop_at i L_adjust s then None
      else (let l = loops s ! i;
                d = frame_duration_ms (frame_start l) now;
                l1 = l\<lparr>frame_end := now, frame_duration := d,
                       sleep_duration := scast (m_render_interval (timer s)) - d,
                       lpc := L_extra\<rparr>
            in Some (s\<lparr>loops := (loops s)[i := l1]\<rparr>)))"

text \<open>
  The end of the correction: \<open>last_frame_end = frame_end\<close> and the test
  \<open>sleep_duration > 0\<close>, which sends the thread to \<open>sleep_for\<close> or back to the loop
  condition.
\<close>

definition leave_correction :: "loop_thread \<Rightarrow> loop_thread" where
  "leave_correction l =
     l\<lparr>last_frame_end := frame_end l,
       lpc := (if 0 <s sleep_duration l then L_sleep else L_check)\<rparr>"

text \<open>
  \<open>extra_duration = frame_duration - milliseconds(m_render_interval)\<close> (the second read)
  and the test \<open>extra_duration > 0\<close>.
\<close>

definition loop_extra :: "nat \<Rightarrow> system \<Rightarrow> system option" where
  "loop_extra i s =
     (if \<not> loop_at i L_extra s then None
      else (let l = loops s ! i;
                l1 = l\<lparr>extra_duration :=
                         frame_duration l - scast (m_render_interval (timer s))\<rparr>
            in Some (s\<lparr>loops := (loops s)
                        [i := (if 0 <s extra_duration l1 then l1\<lparr>lpc := L_load\<rparr>
                               else leave_correction l1)]\<rparr>)))"

text \<open>
  \<open>m_render_interval -= extra_duration.count()\<close> is a read (the third) and a write:
  the subtraction is done in 64 bits and the result narrowed to \<open>int\<close>.
\<close>

definition loop_load :: "nat \<Rightarrow> system \<Rightarrow> system option" where
  "loop_load i s =
     (if \<not> loop_at i L_load s then None
      else Some (s\<lparr>loops := (loops s)
                   [i := (loops s ! i)\<lparr>loaded := m_render_interval (timer s),
                                        lpc := L_store\<rparr>]\<rparr>))"

definition loop_store :: "nat \<Rightarrow> system \<Rightarrow> system option" where
  "loop_store i s =
     (if \<not> loop_at i L_store s then None
      else (let l = loops s ! i in
            Some (s\<lparr>timer := (timer s)\<lparr>m_render_interval :=
                                 ucast ((scast (loaded l) :: i64) - extra_duration l)\<rparr>,
                     loops := (loops s)[i := leave_correction l]\<rparr>)))"

text \<open>\<open>std::this_thread::sleep_for(sleep_duration)\<close> returns.\<close>

definition loop_sleep :: "nat \<Rightarrow> system \<Rightarrow> system option" where
  "loop_sleep i s =
     (if \<not> loop_at i L_sleep s then None else Some (set_lpc i L_check s))"

subsection \<open>Interleavings\<close>

datatype event =
    Start_exchange nat
  | Start_launch nat i64
  | Stop_exchange nat
  | Stop_notify nat
  | Stop_join nat
  | Set_fps cint
  | Can_render nat
  | Can_render_woken nat
  | Spurious_wakeup nat
  | Loop_check nat
  | Loop_tick nat i64
  | Loop_notify nat
  | Loop_adjust nat i64
  | Loop_extra nat
  | Loop_load nat
  | Loop_store nat
  | Loop_sleep nat

text \<open>
  One step of the program. \<open>None\<close>: the event is not enabled (the thread is elsewhere, or
  blocked). After a fault nothing runs.
\<close>

definition step :: "event \<Rightarrow> system \<Rightarrow> system option" where
  "step e s =
     (if fault s \<noteq> None then None
      else (case e of
              Start_exchange h \<Rightarrow> start_exchange h s
            | Start_launch h now \<Rightarrow> start_launch h now s
            | Stop_exchange h \<Rightarrow> stop_exchange h s
            | Stop_notify h \<Rightarrow> stop_notify h s
            | Stop_join h \<Rightarrow> stop_join h s
            | Set_fps fps \<Rightarrow> Some (s\<lparr>timer := set_fps (timer s) fps\<rparr>)
            | Can_render c \<Rightarrow> can_render c s
            | Can_render_woken c \<Rightarrow> can_render_woken c s
            | Spurious_wakeup c \<Rightarrow> spurious_wakeup c s
            | Loop_check i \<Rightarrow> loop_check i s
            | Loop_tick i now \<Rightarrow> loop_tick i now s
            | Loop_notify i \<Rightarrow> loop_notify i s
            | Loop_adjust i now \<Rightarrow> loop_adjust i now s
            | Loop_extra i \<Rightarrow> loop_extra i s
            | Loop_load i \<Rightarrow> loop_load i s
            | Loop_store i \<Rightarrow> loop_store i s
            | Loop_sleep i \<Rightarrow> loop_sleep i s))"

fun run :: "event list \<Rightarrow> system \<Rightarrow> system option" where
  "run [] s = Some s"
| "run (e # es) s = (case step e s of None \<Rightarrow> None | Some s1 \<Rightarrow> run es s1)"

subsection \<open>Observations used by the properties\<close>

text \<open>The stored interval is the one computed from the stored frequency.\<close>

definition consistent :: "render_timer \<Rightarrow> bool" where
  "consistent t \<longleftrightarrow> m_render_interval t = int_div 1000 (m_fps t)"

text \<open>
  The event is the write of a loop iteration's correction,
  \<open>m_render_interval -= extra_duration.count()\<close>: the thread stands at it only in an
  iteration that has found its measured duration to exceed the interval
  (\<open>extra_duration > 0\<close>).
\<close>

definition overrun :: "event \<Rightarrow> system \<Rightarrow> bool" where
  "overrun e s = (case e of Loop_store i \<Rightarrow> loop_at i L_store s | _ \<Rightarrow> False)"

text \<open>No step of the run from \<open>s\<close> along \<open>es\<close> is an overrun.\<close>

fun no_overrun :: "event list \<Rightarrow> system \<Rightarrow> bool" where
  "no_overrun [] s = True"
| "no_overrun (e # es) s =
     (\<not> overrun e s \<and> (case step e s of None \<Rightarrow> True | Some s1 \<Rightarrow> no_overrun es s1))"

text \<open>
  A pacer is constructed and started, and its loop runs one iteration whose bookkeeping is
  measured as 20 ms (the clock reads 0 ns and then 20000000 ns) against the interval of
  16 ms.
\<close>

definition overrun_schedule :: "event list" where
  "overrun_schedule =
     [Start_exchange 0, Start_launch 0 0, Loop_check 0, Loop_tick 0 0, Loop_notify 0,
      Loop_adjust 0 20000000, Loop_extra 0, Loop_load 0, Loop_store 0]"

text \<open>
  The same start, with an iteration measured as 5 ms, and then \<open>set_fps(30)\<close>.
\<close>

definition paced_schedule :: "event list" where
  "paced_schedule =
     [Start_exchange 0, Start_launch 0 0, Loop_check 0, Loop_tick 0 0, Loop_notify 0,
      Loop_adjust 0 5000000, Loop_extra 0, Loop_sleep 0, Set_fps 30]"

text \<open>The start of a pacer up to the notification of its loop's first tick.\<close>

definition notified_schedule :: "event list" where
  "notified_schedule =
     [Start_exchange 0, Start_launch 0 0, Loop_check 0, Loop_tick 0 0, Loop_notify 0]"

text \<open>
  The overrunning iteration again, with \<open>set_fps(30)\<close> falling between the loop's
  second read of the interval (16, for \<open>extra_duration = 4\<close>) and its third (33).
\<close>

definition racing_schedule :: "event list" where
  "racing_schedule =
     [Start_exchange 0, Start_launch 0 0, Loop_check 0, Loop_tick 0 0, Loop_notify 0,
      Loop_adjust 0 20000000, Loop_extra 0, Set_fps 30, Loop_load 0, Loop_store 0]"

text \<open>Classes of events.\<close>

definition is_set_fps :: "event \<Rightarrow> bool" where
  "is_set_fps e = (case e of Set_fps fps \<Rightarrow> True | _ \<Rightarrow> False)"

definition is_loop_event :: "event \<Rightarrow> bool" where
  "is_loop_event e =
     (case e of Loop_check i \<Rightarrow> True | Loop_tick i now \<Rightarrow> True | Loop_notify i \<Rightarrow> True
      | Loop_adjust i now \<Rightarrow> True | Loop_extra i \<Rightarrow> True | Loop_load i \<Rightarrow> True
      | Loop_store i \<Rightarrow> True | Loop_sleep i \<Rightarrow> True | _ \<Rightarrow> False)"

definition is_tick :: "event \<Rightarrow> bool" where
  "is_tick e = (case e of Loop_tick i now \<Rightarrow> True | _ \<Rightarrow> False)"



definition is_start :: "event \<Rightarrow> bool" where
  "is_start e =
     (case e of Start_exchange h \<Rightarrow> True | Start_launch h now \<Rightarrow> True | _ \<Rightarrow> False)"

definition is_stop :: "event \<Rightarrow> bool" where
  "is_stop e =
     (case e of Stop_exchange h \<Rightarrow> True | Stop_notify h \<Rightarrow> True | Stop_join h \<Rightarrow> True
      | _ \<Rightarrow> False)"

text \<open>Every background thread has left \<open>timer_loop\<close>; the number of those that have not.\<close>

definition all_done :: "system \<Rightarrow> bool" where
  "all_done s = list_all (\<lambda>l. lpc l = L_done) (loops s)"

definition live_loops :: "system \<Rightarrow> nat" where
  "live_loops s = length (filter (\<lambda>l. lpc l \<noteq> L_done) (loops s))"

text \<open>
  One started pacer and its first iteration (the tick, the notification, 1 ms of measured
  work, so that the loop goes to sleep): the common prefix of the schedules below.
\<close>

definition first_tick_schedule :: "event list" where
  "first_tick_schedule =
     [Start_exchange 0, Start_launch 0 0, Loop_check 0, Loop_tick 0 0, Loop_notify 0,
      Loop_adjust 0 1000000, Loop_extra 0]"




text \<open>
  Consumer 0 takes the first tick, calls again and blocks; consumer 1 calls and returns at
  once. Then the host calls \<open>stop\<close>: consumer 0 is woken, evaluates the predicate and
  blocks again; the loop leaves, and \<open>stop\<close> joins it and returns.
\<close>

definition blocked_schedule :: "event list" where
  "blocked_schedule = first_tick_schedule @ [Can_render 0, Can_render 0, Can_render 1]"

definition stuck_schedule :: "event list" where
  "stuck_schedule =
     blocked_schedule @
     [Stop_exchange 0, Stop_notify 0, Can_render_woken 0, Loop_sleep 0, Loop_check 0,
      Stop_join 0]"

text \<open>
  The first tick is produced and not consumed; the host calls \<open>stop\<close>, which returns
  (\<open>stop_schedule\<close>), and then \<open>start\<close>, which returns (\<open>restart_schedule\<close>).
\<close>

definition stop_schedule :: "event list" where
  "stop_schedule =
     first_tick_schedule @
     [Stop_exchange 0, Stop_notify 0, Loop_sleep 0, Loop_check 0, Stop_join 0]"

definition restart_schedule :: "event list" where
  "restart_schedule = stop_schedule @ [Start_exchange 0, Start_launch 0 7000000]"

text \<open>Two hosts call \<open>start\<close> concurrently; the loop begins its first iteration.\<close>

definition two_starts_schedule :: "event list" where
  "two_starts_schedule =
     [Start_exchange 0, Start_exchange 1, Start_launch 0 0, Loop_check 0, Loop_tick 0 0]"

text \<open>
  The background thread \<open>i\<close> running alone: \<open>loop_next\<close> is its next step (with
  clock reading \<open>now\<close>), \<open>loop_steps n\<close> lets it take up to \<open>n\<close> steps, stopping
  when it has left \<open>timer_loop\<close>. \<open>stopping i\<close>: thread \<open>i\<close> exists and
  \<open>m_running\<close> is clear.
\<close>

definition loop_next :: "nat \<Rightarrow> i64 \<Rightarrow> system \<Rightarrow> event" where
  "loop_next i now s =
     (case lpc (loops s ! i) of
        L_check \<Rightarrow> Loop_check i
      | L_tick \<Rightarrow> Loop_tick i now
      | L_notify \<Rightarrow> Loop_notify i
      | L_adjust \<Rightarrow> Loop_adjust i now
      | L_extra \<Rightarrow> Loop_extra i
      | L_load \<Rightarrow> Loop_load i
      | L_store \<Rightarrow> Loop_store i
      | L_sleep \<Rightarrow> Loop_sleep i
      | L_done \<Rightarrow> Loop_check i)"

fun loop_steps :: "nat \<Rightarrow> nat \<Rightarrow> i64 \<Rightarrow> system \<Rightarrow> system option" where
  "loop_steps 0 i now s = Some s"
| "loop_steps (Suc n) i now s =
     (if lpc (loops s ! i) = L_done then Some s
      else (case step (loop_next i now s) s of
              None \<Rightarrow> None
            | Some s1 \<Rightarrow> loop_steps n i now s1))"

definition stopping :: "nat \<Rightarrow> system \<Rightarrow> bool" where
  "stopping i s \<longleftrightarrow> fault s = None \<and> i < length (loops s) \<and> \<not> m_running (timer s)"

text \<open>The number of steps a thread at a program counter takes at most until it has left.\<close>

fun remaining :: "loop_pc \<Rightarrow> nat" where
  "remaining L_done = 0"
| "remaining L_check = 1"
| "remaining L_sleep = 2"
| "remaining L_store = 3"
| "remaining L_load = 4"
| "remaining L_extra = 5"
| "remaining L_adjust = 6"
| "remaining L_notify = 7"
| "remaining L_tick = 8"

text \<open>
  Invariants of the program. \<open>owned\<close>: a background thread that \<open>m_thread\<close> does not
  own has left \<open>timer_loop\<close>. \<open>start_only\<close>: what holds as long as nobody calls
  \<open>stop\<close>. \<open>quiescent_blocked c\<close>: consumer \<open>c\<close> is blocked in \<open>m_cv.wait\<close>
  while no loop runs and no host is inside a call.
\<close>

definition owned :: "system \<Rightarrow> bool" where
  "owned s \<longleftrightarrow>
     (\<forall>i < length (loops s). m_thread (timer s) \<noteq> Some i \<longrightarrow> lpc (loops s ! i) = L_done) \<and>
     (\<forall>i. m_thread (timer s) = Some i \<longrightarrow> i < length (loops s))"

definition start_only :: "system \<Rightarrow> bool" where
  "start_only s \<longleftrightarrow>
     fault s = None \<and>
     (if \<not> m_running (timer s)
      then loops s = [] \<and> m_thread (timer s) = None \<and> (\<forall>h. hosts s h = H_idle)
      else (loops s = [] \<and> m_thread (timer s) = None \<and>
              (\<exists>h. hosts s h = H_start_launch \<and> (\<forall>h'. h' \<noteq> h \<longrightarrow> hosts s h' = H_idle)))
         \<or> (length (loops s) = 1 \<and> m_thread (timer s) = Some 0 \<and>
              lpc (loops s ! 0) \<noteq> L_done \<and> (\<forall>h. hosts s h = H_idle)))"

definition quiescent_blocked :: "nat \<Rightarrow> system \<Rightarrow> bool" where
  "quiescent_blocked c s \<longleftrightarrow>
     consumers s c = C_waiting \<and> all_done s \<and> \<not> m_running (timer s) \<and>
     (\<forall>h. hosts s h = H_idle)"

section \<open>Arithmetic of the two integer widths\<close>

lemmas model_defs =
  step_def start_exchange_def start_launch_def stop_exchange_def stop_notify_def stop_join_def
  can_render_def can_render_woken_def can_render_pred_def spurious_wakeup_def
  loop_check_def loop_tick_def loop_notify_def loop_adjust_def loop_extra_def loop_load_def
  loop_store_def loop_sleep_def leave_correction_def
  loop_at_def set_lpc_def notify_all_def test_and_set_def clear_def
  frame_duration_ms_def set_fps_def get_render_interval_def
  render_timer_def init_def int_div_def Let_def word_sless_alt

lemmas step_defs =
  step_def start_exchange_def start_launch_def stop_exchange_def stop_notify_def stop_join_def
  can_render_def can_render_woken_def can_render_pred_def spurious_wakeup_def
  loop_check_def loop_tick_def loop_notify_def loop_adjust_def loop_extra_def loop_load_def
  loop_store_def loop_sleep_def leave_correction_def
  loop_at_def set_lpc_def notify_all_def test_and_set_def clear_def Let_def case_prod_beta

lemma sint_word_of_int_32:
  "- 2147483648 \<le> x \<Longrightarrow> x < 2147483648 \<Longrightarrow> sint (word_of_int x :: 32 word) = x"
  by (simp add: sint_sbintrunc' signed_take_bit_int_eq_self)

lemma sint_word_of_int_64:
  "- 9223372036854775808 \<le> x \<Longrightarrow> x < 9223372036854775808 \<Longrightarrow>
   sint (word_of_int x :: 64 word) = x"
  by (simp add: sint_sbintrunc' signed_take_bit_int_eq_self)

lemma sint_32_range: "- 2147483648 \<le> sint (x :: 32 word) \<and> sint x < 2147483648"
  using sint_ge[of x] sint_lt[of x] by simp

lemma sdiv_pos: "0 \<le> a \<Longrightarrow> 0 < b \<Longrightarrow> (a::int) sdiv b = a div b"
  by (simp add: signed_divide_int_def sgn_if)

lemma sdiv_million:
  "(d::int) sdiv 1000000 = (if d < 0 then - ((- d) div 1000000) else d div 1000000)"
  by (simp add: signed_divide_int_def sgn_if)

lemma sdiv_mult_million: "(k * 1000000) sdiv 1000000 = (k::int)"
proof (cases "k < 0")
  case True
  have "- (k * 1000000) = (- k) * 1000000" by simp
  then have "(- (k * 1000000)) div 1000000 = - k" by simp
  with True show ?thesis by (simp add: sdiv_million)
next
  case False
  then show ?thesis by (simp add: sdiv_million)
qed

lemma int_div_pos: "0 <s F \<Longrightarrow> sint (int_div 1000 F) = 1000 div sint F"
proof -
  assume "0 <s F"
  then have p: "0 < sint F" by (simp add: word_sless_alt)
  have "0 \<le> 1000 div sint F" using p by (simp add: pos_imp_zdiv_nonneg_iff)
  moreover have "1000 div sint F \<le> 1000"
    by (rule int_div_le_self) simp
  ultimately show ?thesis using p
    by (simp add: int_div_def sdiv_pos sint_word_of_int_32)
qed

text \<open>A measured duration in milliseconds is far inside the 64-bit range.\<close>

lemma frame_duration_ms_bound:
  "- 9223372036855 \<le> sint (frame_duration_ms a b) \<and>
   sint (frame_duration_ms a b) \<le> 9223372036855"
proof -
  define d where "d = sint (b - a)"
  have r: "- 9223372036854775808 \<le> d" "d < 9223372036854775808"
    using sint_ge[of "b - a"] sint_lt[of "b - a"] by (simp_all add: d_def)
  have lo: "- 9223372036855 \<le> d sdiv 1000000"
    using r unfolding sdiv_million by (simp split: if_splits) linarith+
  have hi: "d sdiv 1000000 \<le> 9223372036855"
    using r unfolding sdiv_million by (simp split: if_splits) linarith+
  show ?thesis unfolding frame_duration_ms_def d_def[symmetric] using lo hi
    by (simp add: sint_word_of_int_64)
qed

lemma sint_scast_32_64: "sint (scast (x :: 32 word) :: 64 word) = sint x"
  by (simp add: sint_up_scast is_up)

lemma ucast_64_32: "(ucast (x :: 64 word) :: 32 word) = word_of_int (sint x)"
  by (rule bit_word_eqI) (auto simp add: bit_simps)

lemma sint_sub_64:
  "- 9223372036854775808 \<le> sint a - sint b \<Longrightarrow> sint a - sint b < 9223372036854775808 \<Longrightarrow>
   sint (a - b :: 64 word) = sint a - sint b"
  by (simp add: sint_word_ariths signed_take_bit_int_eq_self)

lemma sint_extra_duration:
  "sint (frame_duration_ms fs fe - scast (x :: 32 word)) = sint (frame_duration_ms fs fe) - sint x"
  using frame_duration_ms_bound[of fs fe] sint_32_range[of x]
  by (simp add: sint_sub_64 sint_scast_32_64)

lemma sint_corrected:
  "sint ((scast (y :: 32 word) :: 64 word) - (frame_duration_ms fs fe - scast (x :: 32 word)))
     = sint y - (sint (frame_duration_ms fs fe) - sint x)"
proof -
  have "sint ((scast y :: 64 word) - (frame_duration_ms fs fe - scast x))
          = sint (scast y :: 64 word) - sint (frame_duration_ms fs fe - scast x)"
    using frame_duration_ms_bound[of fs fe] sint_32_range[of x] sint_32_range[of y]
    by (intro sint_sub_64) (auto simp only: sint_extra_duration sint_scast_32_64)
  then show ?thesis
    by (simp only: sint_extra_duration sint_scast_32_64)
qed

lemma overrun_iff:
  "0 <s frame_duration_ms fs fe - scast (x :: 32 word)
     \<longleftrightarrow> sint x < sint (frame_duration_ms fs fe)"
  by (simp add: word_sless_alt sint_extra_duration)

lemma corrected_value:
  "(ucast ((scast (y :: 32 word) :: 64 word) - (frame_duration_ms fs fe - scast (x :: 32 word)))
      :: 32 word)
     = word_of_int (sint y - (sint (frame_duration_ms fs fe) - sint x))"
  by (simp only: ucast_64_32 sint_corrected)

section \<open>The loop's correction of the interval\<close>

text \<open>Steps of hosts other than \<open>set_fps\<close> and steps of consumers leave the loop's
  variables, the interval and the frequency alone.\<close>

lemma calm_step:
  assumes "step e s = Some s'" "\<not> is_set_fps e" "\<not> is_loop_event e" "i < length (loops s)"
  shows "i < length (loops s') \<and> loops s' ! i = loops s ! i
         \<and> m_render_interval (timer s') = m_render_interval (timer s)
         \<and> m_fps (timer s') = m_fps (timer s)"
  using assms
  by (cases e)
    (auto simp add: step_def start_exchange_def start_launch_def stop_exchange_def
      stop_notify_def stop_join_def can_render_def can_render_woken_def can_render_pred_def
      spurious_wakeup_def notify_all_def test_and_set_def clear_def Let_def
      is_set_fps_def is_loop_event_def nth_append
      split: if_splits option.splits)

lemma calm_run:
  "run es s = Some s' \<Longrightarrow> \<forall>e\<in>set es. \<not> is_set_fps e \<and> \<not> is_loop_event e \<Longrightarrow>
   i < length (loops s) \<Longrightarrow>
   i < length (loops s') \<and> loops s' ! i = loops s ! i
   \<and> m_render_interval (timer s') = m_render_interval (timer s)
   \<and> m_fps (timer s') = m_fps (timer s)"
proof (induction es arbitrary: s)
  case Nil
  then show ?case by simp
next
  case (Cons e es)
  from Cons.prems(1) obtain s1 where s1: "step e s = Some s1" and r: "run es s1 = Some s'"
    by (auto split: option.splits)
  from Cons.prems(2) have e: "\<not> is_set_fps e" "\<not> is_loop_event e" by simp_all
  from calm_step[OF s1 e Cons.prems(3)] Cons.IH[OF r] Cons.prems(2)
  show ?case by simp
qed

lemma adjust_effect:
  assumes "step (Loop_adjust i now) s = Some s1"
  shows "i < length (loops s) \<and> i < length (loops s1) \<and> timer s1 = timer s
         \<and> lpc (loops s1 ! i) = L_extra
         \<and> frame_duration (loops s1 ! i) = frame_duration_ms (frame_start (loops s ! i)) now"
  using assms by (auto simp add: step_def loop_adjust_def loop_at_def Let_def split: if_splits)

lemma extra_effect:
  assumes "step (Loop_extra i) s = Some s1"
  shows "i < length (loops s) \<and> i < length (loops s1) \<and> timer s1 = timer s
         \<and> extra_duration (loops s1 ! i)
             = frame_duration (loops s ! i) - scast (m_render_interval (timer s))
         \<and> (if 0 <s frame_duration (loops s ! i) - scast (m_render_interval (timer s))
            then lpc (loops s1 ! i) = L_load
            else lpc (loops s1 ! i) = L_sleep \<or> lpc (loops s1 ! i) = L_check)"
  using assms
  by (auto simp add: step_def loop_extra_def loop_at_def leave_correction_def Let_def
      split: if_splits)

lemma load_effect:
  assumes "step (Loop_load i) s = Some s1"
  shows "i < length (loops s) \<and> i < length (loops s1) \<and> timer s1 = timer s
         \<and> lpc (loops s ! i) = L_load \<and> lpc (loops s1 ! i) = L_store
         \<and> loaded (loops s1 ! i) = m_render_interval (timer s)
         \<and> extra_duration (loops s1 ! i) = extra_duration (loops s ! i)"
  using assms by (auto simp add: step_def loop_load_def loop_at_def split: if_splits)

lemma store_effect:
  assumes "step (Loop_store i) s = Some s1"
  shows "m_render_interval (timer s1)
           = ucast ((scast (loaded (loops s ! i)) :: i64) - extra_duration (loops s ! i))
         \<and> m_fps (timer s1) = m_fps (timer s)
         \<and> (lpc (loops s1 ! i) = L_sleep \<or> lpc (loops s1 ! i) = L_check)"
  using assms
  by (auto simp add: step_def loop_store_def loop_at_def leave_correction_def Let_def
      split: if_splits)

lemma iteration_no_overrun:
  assumes a: "step (Loop_adjust i now) s = Some s1" and r1: "run es1 s1 = Some s2"
    and x: "step (Loop_extra i) s2 = Some s3"
    and c1: "\<forall>e\<in>set es1. \<not> is_set_fps e \<and> \<not> is_loop_event e"
    and no: "sint (frame_duration_ms (frame_start (loops s ! i)) now)
               \<le> sint (m_render_interval (timer s))"
  shows "m_render_interval (timer s3) = m_render_interval (timer s)
         \<and> (lpc (loops s3 ! i) = L_sleep \<or> lpc (loops s3 ! i) = L_check)"
proof -
  note A = adjust_effect[OF a]
  from calm_run[OF r1 c1, of i] A
  have B: "loops s2 ! i = loops s1 ! i"
    "m_render_interval (timer s2) = m_render_interval (timer s)" by simp_all
  note X = extra_effect[OF x]
  from no have "\<not> 0 <s frame_duration (loops s2 ! i) - scast (m_render_interval (timer s2))"
    by (simp add: B A overrun_iff)
  with X B show ?thesis by simp
qed

lemma iteration_overrun:
  assumes a: "step (Loop_adjust i now) s = Some s1" and r1: "run es1 s1 = Some s2"
    and x: "step (Loop_extra i) s2 = Some s3" and r2: "run es2 s3 = Some s4"
    and l: "step (Loop_load i) s4 = Some s5" and r3: "run es3 s5 = Some s6"
    and w: "step (Loop_store i) s6 = Some s7"
    and c: "\<forall>e\<in>set (es1 @ es2 @ es3). \<not> is_set_fps e \<and> \<not> is_loop_event e"
  shows "sint (m_render_interval (timer s))
           < sint (frame_duration_ms (frame_start (loops s ! i)) now)
         \<and> m_render_interval (timer s7)
             = word_of_int (sint (m_render_interval (timer s))
                 - (sint (frame_duration_ms (frame_start (loops s ! i)) now)
                    - sint (m_render_interval (timer s))))
         \<and> m_fps (timer s7) = m_fps (timer s)"
proof -
  from c have c1: "\<forall>e\<in>set es1. \<not> is_set_fps e \<and> \<not> is_loop_event e"
    and c2: "\<forall>e\<in>set es2. \<not> is_set_fps e \<and> \<not> is_loop_event e"
    and c3: "\<forall>e\<in>set es3. \<not> is_set_fps e \<and> \<not> is_loop_event e" by auto
  let ?wd = "frame_duration_ms (frame_start (loops s ! i)) now"
  let ?old = "m_render_interval (timer s)"
  note A = adjust_effect[OF a]
  from calm_run[OF r1 c1, of i] A
  have B: "i < length (loops s2)" "loops s2 ! i = loops s1 ! i"
    "m_render_interval (timer s2) = ?old" "m_fps (timer s2) = m_fps (timer s)" by simp_all
  note X = extra_effect[OF x]
  from calm_run[OF r2 c2, of i] X
  have C: "i < length (loops s4)" "loops s4 ! i = loops s3 ! i"
    "m_render_interval (timer s4) = ?old" "m_fps (timer s4) = m_fps (timer s)"
    by (simp_all add: B)
  note L = load_effect[OF l]
  from L C X have ov: "0 <s ?wd - scast ?old"
    by (auto simp add: B A split: if_splits)
  from X have ex: "extra_duration (loops s3 ! i) = ?wd - scast ?old" by (simp add: B A)
  from calm_run[OF r3 c3, of i] L
  have D: "loops s6 ! i = loops s5 ! i" "m_fps (timer s6) = m_fps (timer s)"
    by (simp_all add: C)
  note W = store_effect[OF w]
  have "m_render_interval (timer s7) = ucast ((scast ?old :: i64) - (?wd - scast ?old))"
    using W D L C ex by simp
  then show ?thesis
    using ov W D by (simp only: corrected_value overrun_iff)
qed

lemma iteration_enabled:
  assumes "fault s = None" "loop_at i L_adjust s"
  shows "(sint (m_render_interval (timer s))
            < sint (frame_duration_ms (frame_start (loops s ! i)) now) \<longrightarrow>
          (\<exists>s'. run [Loop_adjust i now, Loop_extra i, Loop_load i, Loop_store i] s = Some s'))
       \<and> (sint (frame_duration_ms (frame_start (loops s ! i)) now)
            \<le> sint (m_render_interval (timer s)) \<longrightarrow>
          (\<exists>s'. run [Loop_adjust i now, Loop_extra i] s = Some s'))"
  using assms by (auto simp add: step_defs overrun_iff)

lemma frame_duration_choose:
  assumes "- 2147483648 < k" "k < 8589934592"
  shows "frame_duration_ms fs (fs + word_of_int (k * 1000000)) = word_of_int k"
    and "sint (word_of_int k :: 64 word) = k"
proof -
  have "sint (word_of_int (k * 1000000) :: 64 word) = k * 1000000"
    using assms by (intro sint_word_of_int_64) linarith+
  then show "frame_duration_ms fs (fs + word_of_int (k * 1000000)) = word_of_int k"
    by (simp only: frame_duration_ms_def add_diff_cancel_left' sdiv_mult_million)
  show "sint (word_of_int k :: 64 word) = k"
    using assms by (intro sint_word_of_int_64) linarith+
qed

lemma iteration_reaches:
  assumes f: "fault s = None" and at: "loop_at i L_adjust s"
    and b: "b <s m_render_interval (timer s)"
  shows "\<exists>now s'. run [Loop_adjust i now, Loop_extra i, Loop_load i, Loop_store i] s = Some s'
           \<and> m_render_interval (timer s') = b"
proof -
  define old where "old = sint (m_render_interval (timer s))"
  define k where "k = 2 * old - sint b"
  define now where "now = frame_start (loops s ! i) + word_of_int (k * 1000000)"
  have lt: "sint b < old" using b by (simp add: word_sless_alt old_def)
  have kr: "- 2147483648 < k" "k < 8589934592"
    using lt sint_32_range[of b] sint_32_range[of "m_render_interval (timer s)"]
    by (auto simp: k_def old_def)
  have fd: "frame_duration_ms (frame_start (loops s ! i)) now = word_of_int k"
    unfolding now_def by (rule frame_duration_choose(1)[OF kr])
  have sfd: "sint (frame_duration_ms (frame_start (loops s ! i)) now) = k"
    unfolding fd by (rule frame_duration_choose(2)[OF kr])
  have ov: "sint (m_render_interval (timer s))
              < sint (frame_duration_ms (frame_start (loops s ! i)) now)"
    using lt by (simp add: sfd k_def old_def)
  with iteration_enabled[OF f at, of now]
  obtain s' where r: "run [Loop_adjust i now, Loop_extra i, Loop_load i, Loop_store i] s = Some s'"
    by blast
  then obtain s1 s3 s5 where st: "step (Loop_adjust i now) s = Some s1"
    "step (Loop_extra i) s1 = Some s3" "step (Loop_load i) s3 = Some s5"
    "step (Loop_store i) s5 = Some s'"
    by (auto split: option.splits)
  have "m_render_interval (timer s') = word_of_int (old - (k - old))"
    using iteration_overrun[OF st(1) _ st(2) _ st(3) _ st(4), of "[]" "[]" "[]"]
    by (simp add: sfd old_def)
  also have "old - (k - old) = sint b" by (simp add: k_def)
  finally have "m_render_interval (timer s') = b" by simp
  with r show ?thesis by blast
qed

text \<open>
  C3, as stated, fails. In \<open>racing_schedule\<close> the loop measures 20 ms against the
  interval of 16 ms and computes the overrun 4 from it; \<open>set_fps(30)\<close> then stores the
  interval 33, and the loop's \<open>-=\<close> reads 33 and writes 29. The new interval is neither
  \<open>16 - (20 - 16)\<close> nor \<open>33 - (20 - 33)\<close>, and the iteration has changed an
  interval (33) that its measured duration (20) does not exceed.
\<close>

theorem timer_loop_racing_set_fps_counterexample:
  "run racing_schedule (init 0) \<noteq> None
   \<and> sint (m_render_interval (timer (the (run notified_schedule (init 0))))) = 16
   \<and> sint (frame_duration_ms 0 20000000) = 20
   \<and> sint (m_render_interval (timer (the (run (butlast (butlast racing_schedule)) (init 0)))))
        = 33
   \<and> sint (m_render_interval (timer (the (run racing_schedule (init 0))))) = 29
   \<and> sint (m_render_interval (timer (the (run racing_schedule (init 0))))) \<noteq> 16 - (20 - 16)
   \<and> sint (m_render_interval (timer (the (run racing_schedule (init 0))))) \<noteq> 33 - (20 - 33)"
  by (simp add: racing_schedule_def notified_schedule_def model_defs)

text \<open>
  C3, amended. An iteration of loop \<open>i\<close> corrects the interval in the steps
  \<open>Loop_adjust\<close> (the clock reading and the first read of the interval),
  \<open>Loop_extra\<close> (the second read and the test) and, when the measured duration exceeds
  the interval, \<open>Loop_load\<close> and \<open>Loop_store\<close> (the read and the write of
  \<open>-=\<close>); steps of \<open>start\<close>, \<open>stop\<close> and \<open>can_render\<close> may fall
  between them. In every iteration during which no \<open>set_fps\<close> is executed between those
  steps, with measured work duration \<open>wd\<close> (whole milliseconds) and interval
  \<open>old\<close>: when \<open>wd\<close> exceeds \<open>old\<close>, the new interval is
  \<open>old - (wd - old)\<close> as an \<open>int\<close> (exactly that number whenever it is
  representable); when it does not, the interval is unchanged and the thread goes on to its
  sleep or to the loop condition. The steps are enabled for a thread that stands before the
  clock reading. The subtraction has no floor: every value below the current interval, zero
  and the negative ones included, is the result of one iteration for a suitable clock
  reading.
\<close>

theorem timer_loop_adaptive_correction:
  "(step (Loop_adjust i now) s = Some s1 \<and> run es1 s1 = Some s2
      \<and> step (Loop_extra i) s2 = Some s3 \<and> run es2 s3 = Some s4
      \<and> step (Loop_load i) s4 = Some s5 \<and> run es3 s5 = Some s6
      \<and> step (Loop_store i) s6 = Some s7
      \<and> (\<forall>e\<in>set (es1 @ es2 @ es3). \<not> is_set_fps e \<and> \<not> is_loop_event e) \<longrightarrow>
        sint (m_render_interval (timer s))
          < sint (frame_duration_ms (frame_start (loops s ! i)) now)
      \<and> m_render_interval (timer s7)
          = word_of_int (sint (m_render_interval (timer s))
              - (sint (frame_duration_ms (frame_start (loops s ! i)) now)
                 - sint (m_render_interval (timer s))))
      \<and> (- 2147483648 \<le> sint (m_render_interval (timer s))
              - (sint (frame_duration_ms (frame_start (loops s ! i)) now)
                 - sint (m_render_interval (timer s))) \<longrightarrow>
          sint (m_render_interval (timer s7))
            = sint (m_render_interval (timer s))
              - (sint (frame_duration_ms (frame_start (loops s ! i)) now)
                 - sint (m_render_interval (timer s)))))
   \<and> (step (Loop_adjust i now) s = Some s1 \<and> run es1 s1 = Some s2
      \<and> step (Loop_extra i) s2 = Some s3
      \<and> (\<forall>e\<in>set es1. \<not> is_set_fps e \<and> \<not> is_loop_event e)
      \<and> sint (frame_duration_ms (frame_start (loops s ! i)) now)
           \<le> sint (m_render_interval (timer s)) \<longrightarrow>
        m_render_interval (timer s3) = m_render_interval (timer s)
      \<and> (lpc (loops s3 ! i) = L_sleep \<or> lpc (loops s3 ! i) = L_check))
   \<and> (fault s = None \<and> loop_at i L_adjust s \<longrightarrow>
        (sint (m_render_interval (timer s))
            < sint (frame_duration_ms (frame_start (loops s ! i)) now) \<longrightarrow>
          (\<exists>s'. run [Loop_adjust i now, Loop_extra i, Loop_load i, Loop_store i] s = Some s'))
      \<and> (sint (frame_duration_ms (frame_start (loops s ! i)) now)
            \<le> sint (m_render_interval (timer s)) \<longrightarrow>
          (\<exists>s'. run [Loop_adjust i now, Loop_extra i] s = Some s')))
   \<and> (fault s = None \<and> loop_at i L_adjust s \<and> b <s m_render_interval (timer s) \<longrightarrow>
        (\<exists>now' s'. run [Loop_adjust i now', Loop_extra i, Loop_load i, Loop_store i] s = Some s'
           \<and> m_render_interval (timer s') = b))"
proof (intro conjI impI)
  assume a: "step (Loop_adjust i now) s = Some s1 \<and> run es1 s1 = Some s2
      \<and> step (Loop_extra i) s2 = Some s3 \<and> run es2 s3 = Some s4
      \<and> step (Loop_load i) s4 = Some s5 \<and> run es3 s5 = Some s6
      \<and> step (Loop_store i) s6 = Some s7
      \<and> (\<forall>e\<in>set (es1 @ es2 @ es3). \<not> is_set_fps e \<and> \<not> is_loop_event e)"
  then have r: "sint (m_render_interval (timer s))
           < sint (frame_duration_ms (frame_start (loops s ! i)) now)
         \<and> m_render_interval (timer s7)
             = word_of_int (sint (m_render_interval (timer s))
                 - (sint (frame_duration_ms (frame_start (loops s ! i)) now)
                    - sint (m_render_interval (timer s))))
         \<and> m_fps (timer s7) = m_fps (timer s)"
    using iteration_overrun[of i now s s1 es1 s2 s3 es2 s4 s5 es3 s6 s7] by blast
  then show ov: "sint (m_render_interval (timer s))
          < sint (frame_duration_ms (frame_start (loops s ! i)) now)"
    and eq: "m_render_interval (timer s7)
          = word_of_int (sint (m_render_interval (timer s))
              - (sint (frame_duration_ms (frame_start (loops s ! i)) now)
                 - sint (m_render_interval (timer s))))"
    by blast+
  assume lo: "- 2147483648 \<le> sint (m_render_interval (timer s))
              - (sint (frame_duration_ms (frame_start (loops s ! i)) now)
                 - sint (m_render_interval (timer s)))"
  have "sint (m_render_interval (timer s))
          - (sint (frame_duration_ms (frame_start (loops s ! i)) now)
             - sint (m_render_interval (timer s))) < 2147483648"
    using ov sint_32_range[of "m_render_interval (timer s)"] by linarith
  with lo show "sint (m_render_interval (timer s7))
            = sint (m_render_interval (timer s))
              - (sint (frame_duration_ms (frame_start (loops s ! i)) now)
                 - sint (m_render_interval (timer s)))"
    unfolding eq by (rule sint_word_of_int_32)
next
  assume a: "step (Loop_adjust i now) s = Some s1 \<and> run es1 s1 = Some s2
      \<and> step (Loop_extra i) s2 = Some s3
      \<and> (\<forall>e\<in>set es1. \<not> is_set_fps e \<and> \<not> is_loop_event e)
      \<and> sint (frame_duration_ms (frame_start (loops s ! i)) now)
           \<le> sint (m_render_interval (timer s))"
  then show "m_render_interval (timer s3) = m_render_interval (timer s)"
    "lpc (loops s3 ! i) = L_sleep \<or> lpc (loops s3 ! i) = L_check"
    using iteration_no_overrun[of i now s s1 es1 s2 s3] by blast+
next
  assume a: "fault s = None \<and> loop_at i L_adjust s"
  then show "sint (m_render_interval (timer s))
            < sint (frame_duration_ms (frame_start (loops s ! i)) now) \<Longrightarrow>
          \<exists>s'. run [Loop_adjust i now, Loop_extra i, Loop_load i, Loop_store i] s = Some s'"
    and "sint (frame_duration_ms (frame_start (loops s ! i)) now)
            \<le> sint (m_render_interval (timer s)) \<Longrightarrow>
          \<exists>s'. run [Loop_adjust i now, Loop_extra i] s = Some s'"
    using iteration_enabled[of s i now] by blast+
next
  assume "fault s = None \<and> loop_at i L_adjust s \<and> b <s m_render_interval (timer s)"
  then show "\<exists>now' s'. run [Loop_adjust i now', Loop_extra i, Loop_load i, Loop_store i] s
               = Some s' \<and> m_render_interval (timer s') = b"
    using iteration_reaches[of s i b] by blast
qed

theorem timer_loop_adaptive_correction_witness:
  "run (notified_schedule @ [Loop_adjust 0 20000000, Can_render 0, Loop_extra 0, Can_render 0,
          Loop_load 0, Stop_exchange 0, Loop_store 0]) (init 0) \<noteq> None
   \<and> sint (m_render_interval (timer (the (run notified_schedule (init 0))))) = 16
   \<and> sint (frame_duration_ms
         (frame_start (loops (the (run notified_schedule (init 0))) ! 0)) 20000000) = 20
   \<and> sint (m_render_interval (timer (the (run (notified_schedule @
          [Loop_adjust 0 20000000, Can_render 0, Loop_extra 0, Can_render 0,
           Loop_load 0, Stop_exchange 0, Loop_store 0]) (init 0))))) = 12
   \<and> run (notified_schedule @ [Loop_adjust 0 5000000, Can_render 0, Loop_extra 0]) (init 0)
        \<noteq> None
   \<and> sint (m_render_interval (timer (the (run (notified_schedule @
          [Loop_adjust 0 5000000, Can_render 0, Loop_extra 0]) (init 0))))) = 16
   \<and> (\<exists>s'. run [Loop_adjust 0 20000000, Loop_extra 0, Loop_load 0, Loop_store 0]
          (the (run notified_schedule (init 0))) = Some s')
   \<and> (\<exists>s'. run [Loop_adjust 0 5000000, Loop_extra 0]
          (the (run notified_schedule (init 0))) = Some s')
   \<and> (\<exists>now' s'. run [Loop_adjust 0 now', Loop_extra 0, Loop_load 0, Loop_store 0]
          (the (run notified_schedule (init 0))) = Some s' \<and> m_render_interval (timer s') = 0)
   \<and> (\<exists>now' s'. run [Loop_adjust 0 now', Loop_extra 0, Loop_load 0, Loop_store 0]
          (the (run notified_schedule (init 0))) = Some s' \<and> m_render_interval (timer s') = - 1)"
proof -
  define s where "s = the (run notified_schedule (init 0))"
  define s1 where "s1 = the (step (Loop_adjust 0 20000000) s)"
  define s2 where "s2 = the (run [Can_render 0] s1)"
  define s3 where "s3 = the (step (Loop_extra 0) s2)"
  define s4 where "s4 = the (run [Can_render 0] s3)"
  define s5 where "s5 = the (step (Loop_load 0) s4)"
  define s6 where "s6 = the (run [Stop_exchange 0] s5)"
  define s7 where "s7 = the (step (Loop_store 0) s6)"
  define u1 where "u1 = the (step (Loop_adjust 0 5000000) s)"
  define u2 where "u2 = the (run [Can_render 0] u1)"
  define u3 where "u3 = the (step (Loop_extra 0) u2)"
  note d = s_def s1_def s2_def s3_def s4_def s5_def s6_def s7_def u1_def u2_def u3_def
    notified_schedule_def is_set_fps_def is_loop_event_def model_defs
  have a: "step (Loop_adjust 0 20000000) s = Some s1" "run [Can_render 0] s1 = Some s2"
    "step (Loop_extra 0) s2 = Some s3" "run [Can_render 0] s3 = Some s4"
    "step (Loop_load 0) s4 = Some s5" "run [Stop_exchange 0] s5 = Some s6"
    "step (Loop_store 0) s6 = Some s7"
    "\<forall>e\<in>set ([Can_render 0] @ [Can_render 0] @ [Stop_exchange 0]).
        \<not> is_set_fps e \<and> \<not> is_loop_event e"
    by (simp_all add: d)
  have b: "step (Loop_adjust 0 5000000) s = Some u1" "run [Can_render 0] u1 = Some u2"
    "step (Loop_extra 0) u2 = Some u3"
    "\<forall>e\<in>set [Can_render 0]. \<not> is_set_fps e \<and> \<not> is_loop_event e"
    by (simp_all add: d)
  have c: "fault s = None" "loop_at 0 L_adjust s" "sint (m_render_interval (timer s)) = 16"
    "sint (frame_duration_ms (frame_start (loops s ! 0)) 20000000) = 20"
    "sint (frame_duration_ms (frame_start (loops s ! 0)) 5000000) = 5"
    "(0 :: cint) <s m_render_interval (timer s)" "(- 1 :: cint) <s m_render_interval (timer s)"
    by (simp_all add: d)
  have e: "run (notified_schedule @ [Loop_adjust 0 20000000, Can_render 0, Loop_extra 0,
          Can_render 0, Loop_load 0, Stop_exchange 0, Loop_store 0]) (init 0) = Some s7"
    "run (notified_schedule @ [Loop_adjust 0 5000000, Can_render 0, Loop_extra 0]) (init 0)
       = Some u3"
    by (simp_all add: d)
  have t1: "sint (m_render_interval (timer s7)) = 12"
    using timer_loop_adaptive_correction[where i = 0 and now = 20000000 and s = s
        and ?s1.0 = s1 and ?es1.0 = "[Can_render 0]" and ?s2.0 = s2 and ?s3.0 = s3
        and ?es2.0 = "[Can_render 0]" and ?s4.0 = s4 and ?s5.0 = s5
        and ?es3.0 = "[Stop_exchange 0]" and ?s6.0 = s6 and ?s7.0 = s7,
        THEN conjunct1] a c
    by simp
  have t2: "sint (m_render_interval (timer u3)) = 16"
    using timer_loop_adaptive_correction[where i = 0 and now = 5000000 and s = s
        and ?s1.0 = u1 and ?es1.0 = "[Can_render 0]" and ?s2.0 = u2 and ?s3.0 = u3,
        THEN conjunct2, THEN conjunct1] b c
    by simp
  have t3: "\<exists>s'. run [Loop_adjust 0 20000000, Loop_extra 0, Loop_load 0, Loop_store 0] s
              = Some s'"
    using timer_loop_adaptive_correction[where i = 0 and now = 20000000 and s = s,
        THEN conjunct2, THEN conjunct2, THEN conjunct1] c
    by simp
  have t4: "\<exists>s'. run [Loop_adjust 0 5000000, Loop_extra 0] s = Some s'"
    using timer_loop_adaptive_correction[where i = 0 and now = 5000000 and s = s,
        THEN conjunct2, THEN conjunct2, THEN conjunct1] c
    by simp
  have t5: "\<exists>now' s'. run [Loop_adjust 0 now', Loop_extra 0, Loop_load 0, Loop_store 0] s
              = Some s' \<and> m_render_interval (timer s') = 0"
    using timer_loop_adaptive_correction[where i = 0 and s = s and b = 0,
        THEN conjunct2, THEN conjunct2, THEN conjunct2] c(1,2,6)
    by blast
  have t6: "\<exists>now' s'. run [Loop_adjust 0 now', Loop_extra 0, Loop_load 0, Loop_store 0] s
              = Some s' \<and> m_render_interval (timer s') = - 1"
    using timer_loop_adaptive_correction[where i = 0 and s = s and b = "- 1",
        THEN conjunct2, THEN conjunct2, THEN conjunct2] c(1,2,7)
    by blast
  show ?thesis
    using c(3,4) e t1 t2 t3 t4 t5 t6
    unfolding s_def[symmetric]
    by simp
qed

section \<open>set\_fps and get\_render\_interval\<close>

text \<open>
  C1, as stated, fails: after the loop has corrected the interval (16 ms to 12 ms in
  \<open>overrun_schedule\<close>), \<open>set_fps(60)\<close> is ignored because 60 is the stored frequency,
  and \<open>get_render_interval()\<close> returns 12, not \<open>1000 / 60 = 16\<close>.
\<close>

theorem set_fps_after_overrun_counterexample:
  "run overrun_schedule (init 0) \<noteq> None
   \<and> (0 :: cint) <s 60
   \<and> get_render_interval (set_fps (timer (the (run overrun_schedule (init 0)))) 60) = 12
   \<and> get_render_interval (set_fps (timer (the (run overrun_schedule (init 0)))) 60)
       \<noteq> int_div 1000 60"
  by (simp add: overrun_schedule_def model_defs)

text \<open>
  A step that is neither a \<open>set_fps\<close> nor the write of a loop's correction leaves the
  frequency and the interval as they are.
\<close>

lemma step_interval:
  assumes "step e s = Some s'" "\<not> is_set_fps e" "\<not> overrun e s"
  shows "m_fps (timer s') = m_fps (timer s) \<and>
         m_render_interval (timer s') = m_render_interval (timer s)"
  using assms
  by (cases e)
    (auto simp add: step_defs is_set_fps_def overrun_def split: if_splits option.splits)

lemma run_interval:
  "run es s = Some s' \<Longrightarrow> no_overrun es s \<Longrightarrow> \<forall>e\<in>set es. \<not> is_set_fps e \<Longrightarrow>
   m_fps (timer s') = m_fps (timer s) \<and>
   m_render_interval (timer s') = m_render_interval (timer s)"
proof (induction es arbitrary: s)
  case Nil
  then show ?case by simp
next
  case (Cons e es)
  from Cons.prems(1) obtain s1 where s1: "step e s = Some s1" and r: "run es s1 = Some s'"
    by (auto split: option.splits)
  from Cons.prems(2) s1 have n: "\<not> overrun e s" "no_overrun es s1" by auto
  from Cons.prems(3) have f: "\<not> is_set_fps e" "\<forall>e\<in>set es. \<not> is_set_fps e" by simp_all
  from step_interval[OF s1 f(1) n(1)] Cons.IH[OF r n(2) f(2)] show ?case by simp
qed

text \<open>
  C1, amended. For every positive frequency \<open>F\<close> that differs from the stored frequency,
  or when the stored interval is still the one computed from the stored frequency, the call
  \<open>set_fps(F)\<close> is a step of every state of the system, whatever the background thread is
  doing, and after it \<open>get_render_interval()\<close> returns \<open>1000 / F\<close>, truncated:
  immediately, and after every run of the threads that follows in which the loop does not
  write a correction of the interval and \<open>set_fps\<close> is not called again.
\<close>

theorem set_fps_then_get_render_interval:
  assumes "fault s = None" and "0 <s F"
    and "F \<noteq> m_fps (timer s) \<or> m_render_interval (timer s) = int_div 1000 (m_fps (timer s))"
  shows "\<exists>s1. step (Set_fps F) s = Some s1
           \<and> get_render_interval (timer s1) = int_div 1000 F
           \<and> sint (get_render_interval (timer s1)) = 1000 div sint F
           \<and> (\<forall>es s2. run es s1 = Some s2 \<and> no_overrun es s1
                  \<and> (\<forall>e\<in>set es. \<not> is_set_fps e) \<longrightarrow>
                get_render_interval (timer s2) = int_div 1000 F
                \<and> sint (get_render_interval (timer s2)) = 1000 div sint F)"
proof -
  define s1 where "s1 = s\<lparr>timer := set_fps (timer s) F\<rparr>"
  have st: "step (Set_fps F) s = Some s1"
    using assms(1) by (simp add: step_def s1_def)
  have g: "get_render_interval (timer s1) = int_div 1000 F"
    using assms(2,3) by (auto simp add: s1_def set_fps_def get_render_interval_def Let_def)
  have "get_render_interval (timer s2) = int_div 1000 F"
    if "run es s1 = Some s2 \<and> no_overrun es s1 \<and> (\<forall>e\<in>set es. \<not> is_set_fps e)" for es s2
    using run_interval[of es s1 s2] that g by (simp add: get_render_interval_def)
  with st g int_div_pos[OF assms(2)] show ?thesis by auto
qed

theorem set_fps_then_get_render_interval_witness:
  "fault (the (run first_tick_schedule (init 0))) = None
   \<and> m_running (timer (the (run first_tick_schedule (init 0))))
   \<and> lpc (loops (the (run first_tick_schedule (init 0))) ! 0) = L_sleep
   \<and> (0 :: cint) <s 30 \<and> (30 :: cint) \<noteq> m_fps (timer (the (run first_tick_schedule (init 0))))
   \<and> sint (get_render_interval (timer (the (run first_tick_schedule (init 0))))) = 16
   \<and> run (first_tick_schedule @ [Set_fps 30, Loop_sleep 0, Loop_check 0, Loop_tick 0 17000000,
          Loop_notify 0, Can_render 0, Loop_adjust 0 18000000, Loop_extra 0]) (init 0) \<noteq> None
   \<and> sint (get_render_interval (timer (the (run (first_tick_schedule @
          [Set_fps 30, Loop_sleep 0, Loop_check 0, Loop_tick 0 17000000,
           Loop_notify 0, Can_render 0, Loop_adjust 0 18000000, Loop_extra 0]) (init 0))))) = 33
   \<and> sint (get_render_interval (timer (init 0))) = 16
   \<and> sint (get_render_interval (timer (the (step (Set_fps 30) (init 0))))) = 33
   \<and> sint (get_render_interval (timer (the (step (Set_fps 60)
          (the (run first_tick_schedule (init 0))))))) = 16"
proof -
  define s where "s = the (run first_tick_schedule (init 0))"
  define es where "es = [Loop_sleep 0, Loop_check 0, Loop_tick 0 17000000,
          Loop_notify 0, Can_render 0, Loop_adjust 0 18000000, Loop_extra 0]"
  note d = s_def es_def first_tick_schedule_def is_set_fps_def overrun_def model_defs
  have a: "fault s = None" "m_running (timer s)" "lpc (loops s ! 0) = L_sleep"
    "(0 :: cint) <s 30" "(30 :: cint) \<noteq> m_fps (timer s)" "(0 :: cint) <s 60"
    "m_render_interval (timer s) = int_div 1000 (m_fps (timer s))"
    "sint (get_render_interval (timer s)) = 16"
    "fault (init 0) = None" "(30 :: cint) \<noteq> m_fps (timer (init 0))"
    "sint (get_render_interval (timer (init 0))) = 16"
    by (simp_all add: d)
  have b: "run es (the (step (Set_fps 30) s)) = Some (the (run es (the (step (Set_fps 30) s))))"
    "no_overrun es (the (step (Set_fps 30) s))" "\<forall>e\<in>set es. \<not> is_set_fps e"
    "run (first_tick_schedule @ Set_fps 30 # es) (init 0)
       = Some (the (run es (the (step (Set_fps 30) s))))"
    by (simp_all add: d)
  from set_fps_then_get_render_interval[OF a(1,4), of ] a(5)
  obtain s1 where s1: "step (Set_fps 30) s = Some s1"
    "\<forall>es s2. run es s1 = Some s2 \<and> no_overrun es s1 \<and> (\<forall>e\<in>set es. \<not> is_set_fps e) \<longrightarrow>
        get_render_interval (timer s2) = int_div 1000 30
        \<and> sint (get_render_interval (timer s2)) = 1000 div sint (30 :: cint)"
    by blast
  from s1(2)[rule_format, of es "the (run es s1)"] b s1(1)
  have t1: "sint (get_render_interval (timer (the (run es (the (step (Set_fps 30) s)))))) = 33"
    by (simp add: int_div_def)
  from set_fps_then_get_render_interval[OF a(9,4)] a(10)
  have t2: "sint (get_render_interval (timer (the (step (Set_fps 30) (init 0))))) = 33"
    by (auto simp add: int_div_def)
  from set_fps_then_get_render_interval[OF a(1,6)] a(7)
  have t3: "sint (get_render_interval (timer (the (step (Set_fps 60) s)))) = 16"
    by (auto simp add: int_div_def)
  show ?thesis
    using a b t1 t2 t3
    unfolding s_def[symmetric] es_def[symmetric]
    by auto
qed

text \<open>
  C2. \<open>set_fps\<close> with a non-positive frequency, or with the stored frequency, leaves the
  object as it is: the stored frequency and the value of \<open>get_render_interval()\<close> are
  unchanged.
\<close>

theorem set_fps_noop:
  "sint fps \<le> 0 \<or> fps = m_fps t \<Longrightarrow>
     set_fps t fps = t \<and> m_fps (set_fps t fps) = m_fps t \<and>
     get_render_interval (set_fps t fps) = get_render_interval t"
  by (auto simp add: set_fps_def word_sless_alt)

theorem set_fps_noop_witness:
  "sint (0 :: cint) \<le> 0
   \<and> sint (get_render_interval (set_fps (set_fps (render_timer 0) 30) 0)) = 33
   \<and> sint (- 5 :: cint) \<le> 0
   \<and> set_fps (render_timer 0) (- 5) = render_timer 0
   \<and> (60 :: cint) = m_fps (render_timer 0)
   \<and> set_fps (render_timer 0) 60 = render_timer 0"
proof -
  have a: "sint (0 :: cint) \<le> 0" "sint (- 5 :: cint) \<le> 0" by simp_all
  have b: "(60 :: cint) = m_fps (render_timer 0)" by (simp add: render_timer_def)
  have c: "sint (get_render_interval (set_fps (render_timer 0) 30)) = 33"
    by (simp add: model_defs)
  show ?thesis
    using a b c
      set_fps_noop[of 0 "set_fps (render_timer 0) 30"]
      set_fps_noop[of "- 5" "render_timer 0"]
      set_fps_noop[of 60 "render_timer 0"]
    by simp
qed

section \<open>The interval and the stored frequency\<close>

lemma set_fps_consistent: "consistent t \<Longrightarrow> consistent (set_fps t F)"
  by (simp add: consistent_def set_fps_def Let_def)

lemma set_fps_changed_consistent:
  "m_fps (set_fps t F) \<noteq> m_fps t \<Longrightarrow> consistent (set_fps t F)"
  by (simp add: consistent_def set_fps_def Let_def split: if_splits)

lemma step_consistent:
  assumes st: "step e s = Some s'" and c: "consistent (timer s)" and no: "\<not> overrun e s"
  shows "consistent (timer s')"
proof (cases "is_set_fps e")
  case False
  then show ?thesis using step_interval[OF st False no] c by (simp add: consistent_def)
next
  case True
  then obtain F where "e = Set_fps F" by (cases e) (auto simp: is_set_fps_def)
  with st have "timer s' = set_fps (timer s) F" by (auto simp: step_def split: if_splits)
  with c show ?thesis by (simp add: set_fps_consistent)
qed

lemma run_consistent:
  "run es s = Some s' \<Longrightarrow> no_overrun es s \<Longrightarrow> consistent (timer s) \<Longrightarrow>
   consistent (timer s')"
proof (induction es arbitrary: s)
  case Nil
  then show ?case by simp
next
  case (Cons e es)
  from Cons.prems(1) obtain s1 where s1: "step e s = Some s1" and r: "run es s1 = Some s'"
    by (auto split: option.splits)
  from Cons.prems(2) s1 have "\<not> overrun e s" "no_overrun es s1" by auto
  then show ?case using Cons.IH[OF r] step_consistent[OF s1 Cons.prems(3)] by blast
qed

lemma ctor_consistent: "consistent (render_timer now)"
  by (simp add: consistent_def render_timer_def Let_def)

text \<open>
  C4, as stated, fails: after the overrun of \<open>overrun_schedule\<close> the stored frequency is
  still 60 and the stored interval is 12, not \<open>1000 / 60 = 16\<close>.
\<close>

theorem interval_after_overrun_counterexample:
  "run overrun_schedule (init 0) \<noteq> None
   \<and> m_fps (timer (the (run overrun_schedule (init 0)))) = 60
   \<and> m_render_interval (timer (the (run overrun_schedule (init 0)))) = 12
   \<and> \<not> consistent (timer (the (run overrun_schedule (init 0))))"
  by (simp add: overrun_schedule_def consistent_def model_defs)

text \<open>
  C4, amended. The constructor makes the stored interval \<open>1000 / 60\<close>; a \<open>set_fps\<close>
  that changes the frequency recomputes the interval from it; every step of the program
  other than a loop iteration that overruns (its write of the corrected interval) keeps the
  interval equal to \<open>1000 / m_fps\<close>; so the equality holds after every run from
  construction in which no iteration overruns. (An overrun changes the interval and not the
  frequency.)
\<close>

theorem interval_consistent_until_overrun:
  "consistent (render_timer now)
   \<and> (m_fps (set_fps t F) \<noteq> m_fps t \<longrightarrow> consistent (set_fps t F))
   \<and> (step e s = Some s' \<and> consistent (timer s) \<and> \<not> overrun e s
        \<longrightarrow> consistent (timer s'))
   \<and> (run es (init now) = Some s'' \<and> no_overrun es (init now)
        \<longrightarrow> consistent (timer s''))
   \<and> (step e s = Some s' \<and> overrun e s \<longrightarrow> m_fps (timer s') = m_fps (timer s))"
proof (intro conjI impI)
  show "consistent (render_timer now)" by (rule ctor_consistent)
  show "m_fps (set_fps t F) \<noteq> m_fps t \<Longrightarrow> consistent (set_fps t F)"
    by (rule set_fps_changed_consistent)
  show "step e s = Some s' \<and> consistent (timer s) \<and> \<not> overrun e s
          \<Longrightarrow> consistent (timer s')"
    using step_consistent by blast
  show "run es (init now) = Some s'' \<and> no_overrun es (init now)
          \<Longrightarrow> consistent (timer s'')"
    using run_consistent[of es "init now" s''] ctor_consistent[of now]
    by (simp add: init_def)
  show "step e s = Some s' \<and> overrun e s \<Longrightarrow> m_fps (timer s') = m_fps (timer s)"
    by (cases e) (auto simp add: overrun_def dest: store_effect)
qed

theorem interval_consistent_until_overrun_witness:
  "consistent (render_timer 0)
   \<and> m_fps (set_fps (render_timer 0) 30) \<noteq> m_fps (render_timer 0)
   \<and> consistent (set_fps (render_timer 0) 30)
   \<and> run paced_schedule (init 0) \<noteq> None
   \<and> no_overrun paced_schedule (init 0)
   \<and> consistent (timer (the (run paced_schedule (init 0))))
   \<and> m_render_interval (timer (the (run paced_schedule (init 0)))) = 33
   \<and> step (Set_fps 30) (init 0) \<noteq> None
   \<and> consistent (timer (init 0)) \<and> \<not> overrun (Set_fps 30) (init 0)
   \<and> consistent (timer (the (step (Set_fps 30) (init 0))))
   \<and> overrun (Loop_store 0)
        (the (run (butlast overrun_schedule) (init 0)))
   \<and> m_fps (timer (the (run overrun_schedule (init 0)))) = 60"
proof -
  have a: "m_fps (set_fps (render_timer 0) 30) \<noteq> m_fps (render_timer 0)"
    by (simp add: model_defs)
  have b: "run paced_schedule (init 0)
             = Some (the (run paced_schedule (init 0)))"
    by (simp add: paced_schedule_def model_defs)
  have c: "no_overrun paced_schedule (init 0)"
    by (simp add: paced_schedule_def overrun_def model_defs)
  have d: "step (Set_fps 30) (init 0) = Some (the (step (Set_fps 30) (init 0)))"
    "consistent (timer (init 0))" "\<not> overrun (Set_fps 30) (init 0)"
    by (simp_all add: overrun_def consistent_def model_defs)
  have e: "step (Loop_store 0) (the (run (butlast overrun_schedule) (init 0)))
             = Some (the (run overrun_schedule (init 0)))"
    "overrun (Loop_store 0) (the (run (butlast overrun_schedule) (init 0)))"
    by (simp_all add: overrun_schedule_def overrun_def model_defs)
  have f: "m_render_interval (timer (the (run paced_schedule (init 0)))) = 33"
    by (simp add: paced_schedule_def model_defs)
  have g: "m_fps (timer (the (run (butlast overrun_schedule) (init 0)))) = 60"
    by (simp add: overrun_schedule_def model_defs)
  show ?thesis
    using a b c d e f g
      interval_consistent_until_overrun[of 0 "render_timer 0" 30 "Set_fps 30" "init 0"
        "the (step (Set_fps 30) (init 0))" paced_schedule "the (run paced_schedule (init 0))"]
      interval_consistent_until_overrun[of 0 "render_timer 0" 30 "Loop_store 0"
        "the (run (butlast overrun_schedule) (init 0))"
        "the (run overrun_schedule (init 0))" "[]" "init 0"]
    by auto
qed

section \<open>Steps that leave the readiness flag and the consumers alone\<close>

lemma step_keeps_flag:
  assumes "step e s = Some s'" "\<not> is_tick e" "\<forall>c. e \<noteq> Can_render c \<and> e \<noteq> Can_render_woken c"
  shows "m_render_ready (timer s') = m_render_ready (timer s)"
  using assms
  by (cases e) (auto simp add: step_defs is_tick_def set_fps_def split: if_splits option.splits)





section \<open>Background threads and their owner\<close>

lemma owned_init: "owned (init now)"
  by (simp add: owned_def init_def render_timer_def Let_def)

lemma step_owned:
  assumes "step e s = Some s'" "owned s"
  shows "owned s'"
  using assms
  by (cases e) (auto simp add: step_defs owned_def set_fps_def nth_append nth_list_update split: if_splits option.splits)

lemma run_owned: "run es s = Some s' \<Longrightarrow> owned s \<Longrightarrow> owned s'"
  by (induction es arbitrary: s) (auto split: option.splits dest: step_owned)

lemma filter_le_one:
  "(\<forall>i<length xs. \<forall>j<length xs. P (xs ! i) \<and> P (xs ! j) \<longrightarrow> i = j) \<Longrightarrow> length (filter P xs) \<le> 1"
proof (induction xs)
  case Nil
  then show ?case by simp
next
  case (Cons x xs)
  have ih: "length (filter P xs) \<le> 1"
  proof (rule Cons.IH, intro allI impI)
    fix i j assume "i < length xs" "j < length xs" "P (xs ! i) \<and> P (xs ! j)"
    with Cons.prems[rule_format, of "Suc i" "Suc j"] show "i = j" by simp
  qed
  show ?case
  proof (cases "P x")
    case False
    with ih show ?thesis by simp
  next
    case True
    have "filter P xs = []"
    proof (rule ccontr)
      assume "filter P xs \<noteq> []"
      then obtain y where "y \<in> set xs" "P y" by (auto simp: filter_empty_conv)
      then obtain i where "i < length xs" "xs ! i = y" by (auto simp: in_set_conv_nth)
      with Cons.prems[rule_format, of 0 "Suc i"] True \<open>P y\<close> show False by simp
    qed
    with True show ?thesis by simp
  qed
qed

lemma owned_live_loops: "owned s \<Longrightarrow> live_loops s \<le> 1"
  unfolding live_loops_def
proof (rule filter_le_one, intro allI impI)
  fix i j
  assume o: "owned s" and i: "i < length (loops s)" and j: "j < length (loops s)"
    and l: "lpc (loops s ! i) \<noteq> L_done \<and> lpc (loops s ! j) \<noteq> L_done"
  from o i l have "m_thread (timer s) = Some i" by (auto simp: owned_def)
  moreover from o j l have "m_thread (timer s) = Some j" by (auto simp: owned_def)
  ultimately show "i = j" by simp
qed

lemma owned_join_all_done:
  assumes "owned s" "step (Stop_join h) s = Some s'" "fault s' = None"
  shows "all_done s'"
  using assms
  by (auto simp add: step_defs owned_def all_done_def list_all_length split: if_splits option.splits)

lemma step_all_done:
  assumes "step e s = Some s'" "all_done s" "\<not> is_start e"
  shows "all_done s' \<and> ticks s' = ticks s"
  using assms
  by (cases e) (auto simp add: step_defs all_done_def list_all_length is_start_def split: if_splits option.splits)

lemma run_all_done:
  "run es s = Some s' \<Longrightarrow> all_done s \<Longrightarrow> \<forall>e\<in>set es. \<not> is_start e \<Longrightarrow>
   all_done s' \<and> ticks s' = ticks s"
proof (induction es arbitrary: s)
  case Nil
  then show ?case by simp
next
  case (Cons e es)
  from Cons.prems(1) obtain s1 where s1: "step e s = Some s1" and r: "run es s1 = Some s'"
    by (auto split: option.splits)
  from Cons.prems(3) have e: "\<not> is_start e" by simp
  from step_all_done[OF s1 Cons.prems(2) e] Cons.IH[OF r] Cons.prems(3)
  show ?case by simp
qed

lemma start_only_init: "start_only (init now)"
  by (simp add: start_only_def init_def render_timer_def Let_def)

lemma loop_event_frame:
  assumes "step e s = Some s'" "is_loop_event e"
  shows "length (loops s') = length (loops s) \<and> loops s \<noteq> []
           \<and> (\<forall>j<length (loops s). lpc (loops s' ! j) = L_done \<longrightarrow>
                 lpc (loops s ! j) = L_done \<or> \<not> m_running (timer s))
           \<and> hosts s' = hosts s \<and> fault s' = fault s
           \<and> m_running (timer s') = m_running (timer s)
           \<and> m_thread (timer s') = m_thread (timer s)"
  using assms
  by (cases e)
    (auto simp add: step_defs is_loop_event_def nth_list_update split: if_splits)

lemma step_start_only_loop:
  assumes st: "step e s = Some s'" and so: "start_only s" and le: "is_loop_event e"
  shows "start_only s'"
proof -
  note f = loop_event_frame[OF st le]
  from so f have r: "m_running (timer s)" by (auto simp: start_only_def split: if_splits)
  with so f have a: "length (loops s) = 1" "m_thread (timer s) = Some 0"
    "\<forall>h. hosts s h = H_idle" "fault s = None" "lpc (loops s ! 0) \<noteq> L_done"
    by (auto simp: start_only_def)
  with f r have "lpc (loops s' ! 0) \<noteq> L_done" by auto
  with f r a show ?thesis by (auto simp: start_only_def)
qed

lemma step_start_only:
  assumes st: "step e s = Some s'" and so: "start_only s" and ns: "\<not> is_stop e"
  shows "start_only s'"
proof (cases e)
  case (Start_exchange h)
  show ?thesis
  proof (cases "m_running (timer s)")
    case True
    with st Start_exchange have "s' = s"
      by (auto simp: step_def start_exchange_def Let_def split: if_splits)
    with so show ?thesis by simp
  next
    case False
    with so have a: "loops s = []" "m_thread (timer s) = None" "\<forall>h. hosts s h = H_idle" "fault s = None"
      by (auto simp: start_only_def)
    from st Start_exchange False
    have s': "s' = s\<lparr>timer := (timer s)\<lparr>m_running := True\<rparr>, hosts := (hosts s)(h := H_start_launch)\<rparr>"
      by (auto simp: step_def start_exchange_def Let_def split: if_splits)
    have "hosts s' h = H_start_launch \<and> (\<forall>h'. h' \<noteq> h \<longrightarrow> hosts s' h' = H_idle)"
      using a by (simp add: s')
    then show ?thesis using a unfolding start_only_def by (auto simp: s')
  qed
next
  case (Start_launch h now)
  with st have pc: "hosts s h = H_start_launch" and f: "fault s = None"
    by (auto simp: step_def start_launch_def split: if_splits)
  with so have a0: "m_running (timer s)" "loops s = []" "m_thread (timer s) = None"
    by (auto simp: start_only_def split: if_splits)
  with so obtain h0 where h0: "hosts s h0 = H_start_launch"
      "\<forall>h'. h' \<noteq> h0 \<longrightarrow> hosts s h' = H_idle"
    by (auto simp: start_only_def split: if_splits)
  with pc have "h0 = h" by (metis host_pc.distinct(1))
  with h0 a0 have a: "m_running (timer s)" "loops s = []" "m_thread (timer s) = None"
    "\<forall>h'. h' \<noteq> h \<longrightarrow> hosts s h' = H_idle"
    by simp_all
  from st Start_launch pc f a
  have s': "s' = s\<lparr>timer := (timer s)\<lparr>m_start_time := now, m_thread := Some 0\<rparr>,
      loops := [\<lparr>lpc = L_check, frame_start = 0, frame_end = 0, frame_duration = 0,
                 sleep_duration = 0, extra_duration = 0, loaded = 0, last_frame_end = now\<rparr>],
      hosts := (hosts s)(h := H_idle)\<rparr>"
    by (auto simp: step_def start_launch_def Let_def)
  show ?thesis using a f unfolding start_only_def by (auto simp: s')
next
  case (Stop_exchange h) with ns show ?thesis by (simp add: is_stop_def)
next
  case (Stop_notify h) with ns show ?thesis by (simp add: is_stop_def)
next
  case (Stop_join h) with ns show ?thesis by (simp add: is_stop_def)
next
  case (Set_fps F)
  with st so show ?thesis
    by (auto simp: step_def start_only_def set_fps_def Let_def split: if_splits)
next
  case (Can_render c)
  with st so show ?thesis
    by (auto simp: step_def can_render_def can_render_pred_def test_and_set_def clear_def
        start_only_def Let_def split: if_splits)
next
  case (Can_render_woken c)
  with st so show ?thesis
    by (auto simp: step_def can_render_woken_def can_render_pred_def test_and_set_def clear_def
        start_only_def Let_def split: if_splits)
next
  case (Spurious_wakeup c)
  with st so show ?thesis
    by (auto simp: step_def spurious_wakeup_def start_only_def split: if_splits)
next
  case (Loop_check i)
  with st so show ?thesis using step_start_only_loop by (simp add: is_loop_event_def)
next
  case (Loop_tick i now)
  with st so show ?thesis using step_start_only_loop by (simp add: is_loop_event_def)
next
  case (Loop_notify i)
  with st so show ?thesis using step_start_only_loop by (simp add: is_loop_event_def)
next
  case (Loop_adjust i now)
  with st so show ?thesis using step_start_only_loop by (simp add: is_loop_event_def)
next
  case (Loop_extra i)
  with st so show ?thesis using step_start_only_loop by (simp add: is_loop_event_def)
next
  case (Loop_load i)
  with st so show ?thesis using step_start_only_loop by (simp add: is_loop_event_def)
next
  case (Loop_store i)
  with st so show ?thesis using step_start_only_loop by (simp add: is_loop_event_def)
next
  case (Loop_sleep i)
  with st so show ?thesis using step_start_only_loop by (simp add: is_loop_event_def)
qed

lemma run_start_only:
  "run es s = Some s' \<Longrightarrow> start_only s \<Longrightarrow> \<forall>e\<in>set es. \<not> is_stop e \<Longrightarrow> start_only s'"
proof (induction es arbitrary: s)
  case Nil
  then show ?case by simp
next
  case (Cons e es)
  from Cons.prems(1) obtain s1 where s1: "step e s = Some s1" and r: "run es s1 = Some s'"
    by (auto split: option.splits)
  from Cons.prems(3) have e: "\<not> is_stop e" by simp
  from step_start_only[OF s1 Cons.prems(2) e] Cons.IH[OF r] Cons.prems(3)
  show ?case by simp
qed

lemma step_quiescent_blocked:
  assumes "step e s = Some s'" "quiescent_blocked c s" "\<not> is_start e" "e \<noteq> Spurious_wakeup c"
  shows "quiescent_blocked c s' \<and> returned s' c = returned s c"
  using assms
  by (cases e)
    (auto simp add: step_defs quiescent_blocked_def all_done_def list_all_length is_start_def
      set_fps_def split: if_splits option.splits)

lemma run_quiescent_blocked:
  "run es s = Some s' \<Longrightarrow> quiescent_blocked c s \<Longrightarrow>
   \<forall>e\<in>set es. \<not> is_start e \<and> e \<noteq> Spurious_wakeup c \<Longrightarrow>
   quiescent_blocked c s' \<and> returned s' c = returned s c"
proof (induction es arbitrary: s)
  case Nil
  then show ?case by simp
next
  case (Cons e es)
  from Cons.prems(1) obtain s1 where s1: "step e s = Some s1" and r: "run es s1 = Some s'"
    by (auto split: option.splits)
  from Cons.prems(3) have e: "\<not> is_start e" "e \<noteq> Spurious_wakeup c" by simp_all
  from step_quiescent_blocked[OF s1 Cons.prems(2) e] Cons.IH[OF r] Cons.prems(3)
  show ?case by simp
qed

section \<open>The loop leaves once the running flag is clear\<close>

lemma loop_next_step:
  assumes "stopping i s" "lpc (loops s ! i) \<noteq> L_done"
  shows "\<exists>s1. step (loop_next i now s) s = Some s1 \<and> stopping i s1
           \<and> remaining (lpc (loops s1 ! i)) < remaining (lpc (loops s ! i))"
  using assms
  by (cases "lpc (loops s ! i)")
    (auto simp add: loop_next_def stopping_def step_defs)

lemma loop_steps_done:
  "lpc (loops s ! i) = L_done \<Longrightarrow> loop_steps n i now s = Some s"
  by (cases n) simp_all

lemma loop_steps_leave:
  "stopping i s \<Longrightarrow> remaining (lpc (loops s ! i)) \<le> n \<Longrightarrow>
   \<exists>s'. loop_steps n i now s = Some s' \<and> stopping i s' \<and> lpc (loops s' ! i) = L_done"
proof (induction n arbitrary: s)
  case 0
  then have "lpc (loops s ! i) = L_done" by (cases "lpc (loops s ! i)") simp_all
  with 0 show ?case by simp
next
  case (Suc n)
  show ?case
  proof (cases "lpc (loops s ! i) = L_done")
    case True
    with Suc.prems show ?thesis by (simp add: loop_steps_done)
  next
    case False
    from loop_next_step[OF Suc.prems(1) False, of now]
    obtain s1 where s1: "step (loop_next i now s) s = Some s1" "stopping i s1"
      "remaining (lpc (loops s1 ! i)) < remaining (lpc (loops s ! i))"
      by blast
    with Suc.prems(2) have "remaining (lpc (loops s1 ! i)) \<le> n" by simp
    from Suc.IH[OF s1(2) this] False s1(1) show ?thesis by simp
  qed
qed

lemma remaining_le: "remaining pc \<le> 8"
  by (cases pc) simp_all

lemma loop_leaves:
  assumes "stopping i s"
  shows "\<exists>s'. loop_steps 8 i now s = Some s' \<and> stopping i s' \<and> lpc (loops s' ! i) = L_done"
  using loop_steps_leave[OF assms remaining_le] .

lemma loop_next_frame:
  assumes "step (loop_next i now s) s = Some s1"
  shows "hosts s1 = hosts s \<and> m_thread (timer s1) = m_thread (timer s)"
  using assms
  by (cases "lpc (loops s ! i)")
    (auto simp add: loop_next_def step_defs split: if_splits)

lemma loop_steps_frame:
  "loop_steps n i now s = Some s' \<Longrightarrow>
   hosts s' = hosts s \<and> m_thread (timer s') = m_thread (timer s)"
proof (induction n arbitrary: s)
  case 0
  then show ?case by simp
next
  case (Suc n)
  show ?case
  proof (cases "lpc (loops s ! i) = L_done")
    case True
    with Suc.prems show ?thesis by simp
  next
    case False
    with Suc.prems obtain s1 where s1: "step (loop_next i now s) s = Some s1"
      and r: "loop_steps n i now s1 = Some s'"
      by (auto split: option.splits)
    from Suc.IH[OF r] loop_next_frame[OF s1] show ?thesis by simp
  qed
qed

lemma stop_returns:
  assumes "fault s = None" "hosts s h = H_stop_join" "m_thread (timer s) = Some i"
    "i < length (loops s)" "\<not> m_running (timer s)"
  shows "\<exists>s1 s2. loop_steps 8 i now s = Some s1 \<and> step (Stop_join h) s1 = Some s2
           \<and> hosts s2 h = H_idle \<and> fault s2 = None"
proof -
  from assms have "stopping i s" by (simp add: stopping_def)
  from loop_leaves[OF this, of now]
  obtain s1 where s1: "loop_steps 8 i now s = Some s1" "stopping i s1"
    "lpc (loops s1 ! i) = L_done"
    by blast
  from loop_steps_frame[OF s1(1)] assms
  have "hosts s1 h = H_stop_join" "m_thread (timer s1) = Some i" by simp_all
  with s1 show ?thesis
    by (simp add: stopping_def step_def stop_join_def)
qed

section \<open>can\_render and the readiness flag\<close>

text \<open>
  C10. The wait predicate of \<open>can_render\<close> is a test-and-set: a call entered while the
  flag is clear sets it and blocks, and a second call entered while the first consumer is
  blocked finds the flag set and returns (\<open>true\<close>) in its first step, although the
  loop has produced no tick in between.
\<close>

theorem can_render_second_consumer_returns:
  assumes "fault s = None" and "\<not> m_render_ready (timer s)"
    and "consumers s a = C_idle" and "consumers s b = C_idle" and "a \<noteq> b"
  shows "\<exists>s1 s2. step (Can_render a) s = Some s1
           \<and> consumers s1 a = C_waiting \<and> m_render_ready (timer s1)
           \<and> returned s1 a = returned s a
           \<and> step (Can_render b) s1 = Some s2
           \<and> consumers s2 b = C_idle \<and> returned s2 b = returned s b + 1
           \<and> consumers s2 a = C_waiting \<and> ticks s2 = ticks s"
  using assms by (simp add: step_defs)

theorem can_render_second_consumer_returns_witness:
  "fault (init 0) = None \<and> \<not> m_render_ready (timer (init 0))
   \<and> consumers (init 0) 0 = C_idle \<and> consumers (init 0) 1 = C_idle \<and> (0 :: nat) \<noteq> 1
   \<and> (\<exists>s1 s2. step (Can_render 0) (init 0) = Some s1
         \<and> consumers s1 0 = C_waiting \<and> m_render_ready (timer s1)
         \<and> step (Can_render 1) s1 = Some s2
         \<and> returned s2 1 = 1 \<and> consumers s2 0 = C_waiting \<and> ticks s2 = 0)"
proof -
  have a: "fault (init 0) = None" "\<not> m_render_ready (timer (init 0))"
    "consumers (init 0) 0 = C_idle" "consumers (init 0) 1 = C_idle" "(0 :: nat) \<noteq> 1"
    "returned (init 0) 1 = 0" "ticks (init 0) = 0"
    by (simp_all add: init_def render_timer_def)
  from can_render_second_consumer_returns[OF a(1-5)]
  obtain s1 s2 where "step (Can_render 0) (init 0) = Some s1"
    "consumers s1 0 = C_waiting" "m_render_ready (timer s1)"
    "step (Can_render 1) s1 = Some s2" "returned s2 1 = returned (init 0) 1 + 1"
    "consumers s2 0 = C_waiting" "ticks s2 = ticks (init 0)"
    by blast
  with a show ?thesis by auto
qed






section \<open>stop and the blocked consumers\<close>

text \<open>
  C6 (every consumer blocked in \<open>can_render\<close> returns after \<open>stop\<close>) does not hold
  of the code. In \<open>blocked_schedule\<close> consumer 0 is blocked in \<open>m_cv.wait\<close> on a
  running pacer, and consumer 1 has returned on the flag that consumer 0's predicate had
  set. \<open>stop\<close> then wakes consumer 0, whose predicate finds the flag clear, sets it and
  waits again. After \<open>stop\<close> has joined the loop and returned, consumer 0 is still
  blocked, and it stays blocked along every continuation in which nobody calls
  \<open>start\<close> and the wait does not wake spuriously.
\<close>

theorem stop_leaves_consumer_blocked:
  "run blocked_schedule (init 0) \<noteq> None
   \<and> consumers (the (run blocked_schedule (init 0))) 0 = C_waiting
   \<and> m_running (timer (the (run blocked_schedule (init 0))))
   \<and> returned (the (run blocked_schedule (init 0))) 0 = 1
   \<and> run stuck_schedule (init 0) \<noteq> None
   \<and> hosts (the (run stuck_schedule (init 0))) 0 = H_idle
   \<and> m_thread (timer (the (run stuck_schedule (init 0)))) = None
   \<and> quiescent_blocked 0 (the (run stuck_schedule (init 0)))
   \<and> returned (the (run stuck_schedule (init 0))) 0 = 1
   \<and> (\<forall>es s'. run es (the (run stuck_schedule (init 0))) = Some s'
          \<and> (\<forall>e\<in>set es. \<not> is_start e \<and> e \<noteq> Spurious_wakeup 0)
        \<longrightarrow> consumers s' 0 = C_waiting \<and> returned s' 0 = 1)"
proof -
  have e: "run blocked_schedule (init 0) \<noteq> None"
    "consumers (the (run blocked_schedule (init 0))) 0 = C_waiting"
    "m_running (timer (the (run blocked_schedule (init 0))))"
    "returned (the (run blocked_schedule (init 0))) 0 = 1"
    by (simp_all add: blocked_schedule_def first_tick_schedule_def model_defs)
  have f: "run stuck_schedule (init 0) \<noteq> None"
    "hosts (the (run stuck_schedule (init 0))) 0 = H_idle"
    "m_thread (timer (the (run stuck_schedule (init 0)))) = None"
    "quiescent_blocked 0 (the (run stuck_schedule (init 0)))"
    "returned (the (run stuck_schedule (init 0))) 0 = 1"
    by (simp_all add: stuck_schedule_def blocked_schedule_def first_tick_schedule_def
        quiescent_blocked_def all_done_def model_defs)
  have g: "consumers s' 0 = C_waiting \<and> returned s' 0 = 1"
    if "run es (the (run stuck_schedule (init 0))) = Some s'
          \<and> (\<forall>e\<in>set es. \<not> is_start e \<and> e \<noteq> Spurious_wakeup 0)" for es s'
    using run_quiescent_blocked[of es "the (run stuck_schedule (init 0))" s' 0] that f(4,5)
    by (simp add: quiescent_blocked_def)
  from e f g show ?thesis by blast
qed

theorem stop_leaves_consumer_blocked_witness:
  "run [Can_render 1, Stop_exchange 0, Set_fps 30] (the (run stuck_schedule (init 0))) \<noteq> None
   \<and> consumers (the (run (stuck_schedule @ [Can_render 1, Stop_exchange 0, Set_fps 30]) (init 0))) 0
        = C_waiting"
proof -
  define s where "s = the (run stuck_schedule (init 0))"
  have a: "run [Can_render 1, Stop_exchange 0, Set_fps 30] s
             = Some (the (run [Can_render 1, Stop_exchange 0, Set_fps 30] s))"
    "\<forall>e\<in>set [Can_render 1, Stop_exchange 0, Set_fps 30]. \<not> is_start e \<and> e \<noteq> Spurious_wakeup 0"
    "the (run [Can_render 1, Stop_exchange 0, Set_fps 30] s)
       = the (run (stuck_schedule @ [Can_render 1, Stop_exchange 0, Set_fps 30]) (init 0))"
    by (simp_all add: s_def stuck_schedule_def blocked_schedule_def first_tick_schedule_def
        is_start_def model_defs)
  from stop_leaves_consumer_blocked
  have "\<forall>es s'. run es s = Some s'
          \<and> (\<forall>e\<in>set es. \<not> is_start e \<and> e \<noteq> Spurious_wakeup 0)
        \<longrightarrow> consumers s' 0 = C_waiting \<and> returned s' 0 = 1"
    unfolding s_def by blast
  from this[rule_format, of "[Can_render 1, Stop_exchange 0, Set_fps 30]"
      "the (run [Can_render 1, Stop_exchange 0, Set_fps 30] s)"] a
  show ?thesis unfolding s_def[symmetric] by auto
qed

section \<open>stop joins the background thread\<close>

text \<open>
  C7. \<open>stop\<close> on a running pacer clears \<open>m_running\<close> and goes on to notify and
  join; the call returns only in its join step, which needs the thread owned by
  \<open>m_thread\<close> to have left \<open>timer_loop\<close>; when it has returned, every background
  thread has left, and no tick is produced along any continuation without a step of
  \<open>start\<close>. \<open>stop\<close> on a pacer that is not running changes nothing. The join is
  reached: with \<open>m_running\<close> clear, the owned thread leaves \<open>timer_loop\<close> within
  eight of its own steps (an iteration it has begun is at most the tick, the notification,
  the three reads and the write of the interval, and the sleep), and \<open>stop\<close> then
  returns.
\<close>

theorem stop_joins_background_thread:
  "(fault s = None \<and> hosts s h = H_idle \<and> m_running (timer s) \<longrightarrow>
      (\<exists>s'. step (Stop_exchange h) s = Some s' \<and> \<not> m_running (timer s')
            \<and> hosts s' h = H_stop_notify))
   \<and> (step e s = Some s' \<and> (hosts s h = H_stop_notify \<or> hosts s h = H_stop_join)
        \<and> hosts s' h = H_idle \<longrightarrow>
      e = Stop_join h \<and> (\<exists>i. m_thread (timer s) = Some i \<and> loop_at i L_done s))
   \<and> (run es (init now) = Some s \<and> step (Stop_join h) s = Some s' \<and> fault s' = None \<longrightarrow>
      hosts s' h = H_idle \<and> all_done s')
   \<and> (all_done s \<and> run es s = Some s' \<and> (\<forall>e\<in>set es. \<not> is_start e) \<longrightarrow>
      ticks s' = ticks s \<and> all_done s')
   \<and> (fault s = None \<and> hosts s h = H_idle \<and> \<not> m_running (timer s) \<longrightarrow>
      step (Stop_exchange h) s = Some s)
   \<and> (fault s = None \<and> hosts s h = H_stop_join \<and> m_thread (timer s) = Some i
        \<and> i < length (loops s) \<and> \<not> m_running (timer s) \<longrightarrow>
      (\<exists>s1 s2. loop_steps 8 i now s = Some s1 \<and> step (Stop_join h) s1 = Some s2
          \<and> hosts s2 h = H_idle \<and> fault s2 = None))"
proof (intro conjI impI)
  assume "fault s = None \<and> hosts s h = H_idle \<and> m_running (timer s)"
  then show "\<exists>s'. step (Stop_exchange h) s = Some s' \<and> \<not> m_running (timer s')
            \<and> hosts s' h = H_stop_notify"
    by (simp add: step_def stop_exchange_def Let_def)
next
  assume a: "step e s = Some s' \<and> (hosts s h = H_stop_notify \<or> hosts s h = H_stop_join)
        \<and> hosts s' h = H_idle"
  then show "e = Stop_join h"
    by (cases e) (auto simp add: step_defs split: if_splits option.splits)
  with a show "\<exists>i. m_thread (timer s) = Some i \<and> loop_at i L_done s"
    by (auto simp add: step_defs split: if_splits option.splits)
next
  assume a: "run es (init now) = Some s \<and> step (Stop_join h) s = Some s' \<and> fault s' = None"
  then have "owned s" using run_owned[of es "init now" s] owned_init by blast
  with a show "all_done s'" using owned_join_all_done by blast
  from a show "hosts s' h = H_idle"
    by (auto simp add: step_defs split: if_splits option.splits)
next
  assume a: "all_done s \<and> run es s = Some s' \<and> (\<forall>e\<in>set es. \<not> is_start e)"
  then show "ticks s' = ticks s" "all_done s'"
    using run_all_done[of es s s'] by blast+
next
  assume "fault s = None \<and> hosts s h = H_idle \<and> \<not> m_running (timer s)"
  then show "step (Stop_exchange h) s = Some s"
    by (simp add: step_def stop_exchange_def Let_def)
next
  assume "fault s = None \<and> hosts s h = H_stop_join \<and> m_thread (timer s) = Some i
        \<and> i < length (loops s) \<and> \<not> m_running (timer s)"
  then show "\<exists>s1 s2. loop_steps 8 i now s = Some s1 \<and> step (Stop_join h) s1 = Some s2
          \<and> hosts s2 h = H_idle \<and> fault s2 = None"
    using stop_returns[of s h i now] by blast
qed

theorem stop_joins_background_thread_witness:
  "m_running (timer (the (run first_tick_schedule (init 0))))
   \<and> \<not> m_running (timer (the (step (Stop_exchange 0) (the (run first_tick_schedule (init 0))))))
   \<and> hosts (the (run (butlast stop_schedule) (init 0))) 0 = H_stop_join
   \<and> step (Stop_join 0) (the (run (butlast stop_schedule) (init 0))) \<noteq> None
   \<and> loop_at 0 L_done (the (run (butlast stop_schedule) (init 0)))
   \<and> hosts (the (run stop_schedule (init 0))) 0 = H_idle
   \<and> all_done (the (run stop_schedule (init 0)))
   \<and> ticks (the (run stop_schedule (init 0))) = 1
   \<and> run [Can_render 0, Set_fps 30, Stop_exchange 0] (the (run stop_schedule (init 0))) \<noteq> None
   \<and> ticks (the (run (stop_schedule @ [Can_render 0, Set_fps 30, Stop_exchange 0]) (init 0))) = 1
   \<and> step (Stop_exchange 0) (init 0) = Some (init 0)
   \<and> hosts (the (run (first_tick_schedule @ [Stop_exchange 0, Stop_notify 0]) (init 0))) 0
        = H_stop_join
   \<and> (\<exists>s1 s2. loop_steps 8 0 0
            (the (run (first_tick_schedule @ [Stop_exchange 0, Stop_notify 0]) (init 0)))
            = Some s1
          \<and> step (Stop_join 0) s1 = Some s2 \<and> hosts s2 0 = H_idle)"
proof -
  define sA where "sA = the (run first_tick_schedule (init 0))"
  define sD where
    "sD = the (run (first_tick_schedule @ [Stop_exchange 0, Stop_notify 0]) (init 0))"
  have j: "fault sD = None" "hosts sD 0 = H_stop_join" "m_thread (timer sD) = Some 0"
    "0 < length (loops sD)" "\<not> m_running (timer sD)"
    by (simp_all add: sD_def first_tick_schedule_def model_defs)
  have t6: "\<exists>s1 s2. loop_steps 8 0 0 sD = Some s1 \<and> step (Stop_join 0) s1 = Some s2
              \<and> hosts s2 0 = H_idle"
    using stop_joins_background_thread[where s = sD and h = 0 and i = 0 and now = 0] j
    by blast
  define sB where "sB = the (run (butlast stop_schedule) (init 0))"
  define sC where "sC = the (run stop_schedule (init 0))"
  define es where "es = [Can_render 0, Set_fps 30, Stop_exchange 0]"
  have a: "fault sA = None" "hosts sA 0 = H_idle" "m_running (timer sA)"
    by (simp_all add: sA_def first_tick_schedule_def model_defs)
  have b: "step (Stop_join 0) sB = Some sC" "hosts sB 0 = H_stop_join" "hosts sC 0 = H_idle"
    "run (butlast stop_schedule) (init 0) = Some sB" "fault sC = None"
    "m_thread (timer sB) = Some 0"
    by (simp_all add: sB_def sC_def stop_schedule_def first_tick_schedule_def model_defs)
  have c: "run es sC = Some (the (run es sC))" "\<forall>e\<in>set es. \<not> is_start e"
    "ticks sC = 1"
    "the (run es sC) = the (run (stop_schedule @ es) (init 0))"
    by (simp_all add: sC_def es_def stop_schedule_def first_tick_schedule_def is_start_def
        model_defs)
  have d: "fault (init 0) = None" "hosts (init 0) 0 = H_idle" "\<not> m_running (timer (init 0))"
    by (simp_all add: init_def render_timer_def)
  have t1: "\<exists>s'. step (Stop_exchange 0) sA = Some s' \<and> \<not> m_running (timer s')"
    using stop_joins_background_thread[where s = sA and h = 0] a by blast
  have t2: "loop_at 0 L_done sB"
    using stop_joins_background_thread[where e = "Stop_join 0" and s = sB and s' = sC and h = 0]
      b by (auto simp: loop_at_def)
  have t3: "all_done sC"
    using stop_joins_background_thread[where es = "butlast stop_schedule" and now = 0
        and s = sB and s' = sC and h = 0] b by blast
  have t4: "ticks (the (run es sC)) = ticks sC"
    using stop_joins_background_thread[where es = es and s = sC and s' = "the (run es sC)"]
      c t3 by blast
  have t5: "step (Stop_exchange 0) (init 0) = Some (init 0)"
    using stop_joins_background_thread[where s = "init 0" and h = 0] d by blast
  from t1 have t1': "\<not> m_running (timer (the (step (Stop_exchange 0) sA)))" by auto
  show ?thesis
    using a b c j t1' t2 t3 t4 t5 t6
    unfolding sA_def[symmetric] sB_def[symmetric] sC_def[symmetric] sD_def[symmetric]
      es_def[symmetric]
    by auto
qed

section \<open>start launches one loop\<close>

text \<open>
  C8. In every reachable state at most one background thread is inside \<open>timer_loop\<close>.
  As long as nobody calls \<open>stop\<close>, whatever the interleaving of the \<open>start\<close>
  calls, nothing faults, at most one thread has ever been launched, and once the calls
  have returned on a running pacer exactly one loop is active. A \<open>start\<close> goes on to
  launch only when its exchange found \<open>m_running\<close> clear, only that caller launches,
  and \<open>start\<close> on a running pacer changes nothing.
\<close>

theorem start_launches_one_loop:
  "(run es (init now) = Some s \<longrightarrow> live_loops s \<le> 1)
   \<and> (run es (init now) = Some s \<and> (\<forall>e\<in>set es. \<not> is_stop e) \<longrightarrow>
        fault s = None \<and> length (loops s) \<le> 1
        \<and> (m_running (timer s) \<and> (\<forall>h. hosts s h = H_idle) \<longrightarrow> live_loops s = 1))
   \<and> (step (Start_exchange h) s = Some s' \<and> hosts s' h = H_start_launch \<longrightarrow>
        \<not> m_running (timer s) \<and> m_running (timer s'))
   \<and> (step (Start_launch h t0) s = Some s' \<longrightarrow> hosts s h = H_start_launch)
   \<and> (fault s = None \<and> hosts s h = H_idle \<and> m_running (timer s) \<longrightarrow>
        step (Start_exchange h) s = Some s)"
proof (intro conjI impI)
  assume "run es (init now) = Some s"
  then have "owned s" using run_owned owned_init by blast
  then show "live_loops s \<le> 1" by (rule owned_live_loops)
next
  assume a: "run es (init now) = Some s \<and> (\<forall>e\<in>set es. \<not> is_stop e)"
  then have so: "start_only s" using run_start_only[of es "init now" s] start_only_init by blast
  then show "fault s = None" "length (loops s) \<le> 1"
    by (auto simp: start_only_def split: if_splits)
  assume "m_running (timer s) \<and> (\<forall>h. hosts s h = H_idle)"
  with so have "length (loops s) = 1 \<and> lpc (loops s ! 0) \<noteq> L_done"
    by (auto simp: start_only_def split: if_splits)
  then show "live_loops s = 1"
    by (cases "loops s") (auto simp: live_loops_def)
next
  assume "step (Start_exchange h) s = Some s' \<and> hosts s' h = H_start_launch"
  then show "\<not> m_running (timer s)" "m_running (timer s')"
    by (auto simp add: step_def start_exchange_def Let_def split: if_splits)
next
  assume "step (Start_launch h t0) s = Some s'"
  then show "hosts s h = H_start_launch"
    by (auto simp add: step_def start_launch_def split: if_splits)
next
  assume "fault s = None \<and> hosts s h = H_idle \<and> m_running (timer s)"
  then show "step (Start_exchange h) s = Some s"
    by (simp add: step_def start_exchange_def Let_def)
qed

theorem start_launches_one_loop_witness:
  "run two_starts_schedule (init 0) \<noteq> None
   \<and> live_loops (the (run two_starts_schedule (init 0))) = 1
   \<and> fault (the (run two_starts_schedule (init 0))) = None
   \<and> ticks (the (run two_starts_schedule (init 0))) = 1
   \<and> step (Start_launch 1 0) (the (run two_starts_schedule (init 0))) = None
   \<and> hosts (the (step (Start_exchange 0) (init 0))) 0 = H_start_launch
   \<and> \<not> m_running (timer (init 0))
   \<and> step (Start_launch 0 0) (the (run [Start_exchange 0, Start_exchange 1] (init 0))) \<noteq> None
   \<and> hosts (the (run [Start_exchange 0, Start_exchange 1] (init 0))) 0 = H_start_launch
   \<and> hosts (the (run [Start_exchange 0, Start_exchange 1] (init 0))) 1 = H_idle
   \<and> step (Start_exchange 0) (the (run [Start_exchange 0, Start_launch 0 0] (init 0)))
        = Some (the (run [Start_exchange 0, Start_launch 0 0] (init 0)))"
proof -
  define sA where "sA = the (run two_starts_schedule (init 0))"
  define sB where "sB = the (run [Start_exchange 0, Start_exchange 1] (init 0))"
  define sC where "sC = the (run [Start_exchange 0, Start_launch 0 0] (init 0))"
  have a: "run two_starts_schedule (init 0) = Some sA" "\<forall>e\<in>set two_starts_schedule. \<not> is_stop e"
    "m_running (timer sA)" "\<forall>h. hosts sA h = H_idle" "ticks sA = 1"
    "step (Start_launch 1 0) sA = None"
    by (simp_all add: sA_def two_starts_schedule_def is_stop_def model_defs)
  have b: "step (Start_exchange 0) (init 0) = Some (the (step (Start_exchange 0) (init 0)))"
    "hosts (the (step (Start_exchange 0) (init 0))) 0 = H_start_launch"
    by (simp_all add: model_defs)
  have c: "step (Start_launch 0 0) sB = Some (the (step (Start_launch 0 0) sB))"
    "hosts sB 1 = H_idle"
    by (simp_all add: sB_def model_defs)
  have d: "fault sC = None" "hosts sC 0 = H_idle" "m_running (timer sC)"
    by (simp_all add: sC_def model_defs)
  have t1: "live_loops sA = 1 \<and> fault sA = None"
    using start_launches_one_loop[where es = two_starts_schedule and now = 0 and s = sA] a
    by blast
  have t2: "\<not> m_running (timer (init 0))"
    using start_launches_one_loop[where h = 0 and s = "init 0"
        and s' = "the (step (Start_exchange 0) (init 0))"] b by blast
  have t3: "hosts sB 0 = H_start_launch"
    using start_launches_one_loop[where h = 0 and ?t0.0 = 0 and s = sB
        and s' = "the (step (Start_launch 0 0) sB)"] c by blast
  have t4: "step (Start_exchange 0) sC = Some sC"
    using start_launches_one_loop[where h = 0 and s = sC] d by blast
  show ?thesis
    using a b c t1 t2 t3 t4
    unfolding sA_def[symmetric] sB_def[symmetric] sC_def[symmetric]
    by auto
qed

section \<open>stop followed by start\<close>

text \<open>
  C9, as stated, fails. In \<open>restart_schedule\<close> the tick produced before \<open>stop\<close>
  was not consumed; after \<open>stop\<close> and \<open>start\<close> have returned, and before the new
  loop has taken a step, \<open>can_render\<close> returns at once on that flag.
\<close>

theorem restart_stale_tick_counterexample:
  "run first_tick_schedule (init 0) \<noteq> None
   \<and> ticks (the (run first_tick_schedule (init 0))) = 1
   \<and> run restart_schedule (init 0) \<noteq> None
   \<and> hosts (the (run restart_schedule (init 0))) 0 = H_idle
   \<and> m_thread (timer (the (run restart_schedule (init 0)))) = Some 1
   \<and> lpc (loops (the (run restart_schedule (init 0))) ! 1) = L_check
   \<and> ticks (the (run restart_schedule (init 0))) = 1
   \<and> consumers (the (run restart_schedule (init 0))) 0 = C_idle
   \<and> returned (the (run restart_schedule (init 0))) 0 = 0
   \<and> step (Can_render 0) (the (run restart_schedule (init 0))) \<noteq> None
   \<and> consumers (the (step (Can_render 0) (the (run restart_schedule (init 0))))) 0 = C_idle
   \<and> returned (the (step (Can_render 0) (the (run restart_schedule (init 0))))) 0 = 1
   \<and> ticks (the (step (Can_render 0) (the (run restart_schedule (init 0))))) = 1"
  by (simp add: restart_schedule_def stop_schedule_def first_tick_schedule_def model_defs)

text \<open>
  C9, amended. Neither \<open>stop\<close> nor \<open>start\<close> writes the readiness flag, so a tick
  that is pending before the stop is still pending after the restart, and a
  \<open>can_render\<close> call that finds it returns at once. Ticking resumes: the thread
  launched by \<open>start\<close> enters the loop and produces a tick in its first iteration.
\<close>

theorem restart_keeps_pending_tick:
  "(step e s = Some s' \<and> (is_start e \<or> is_stop e) \<longrightarrow>
      m_render_ready (timer s') = m_render_ready (timer s))
   \<and> (step (Start_launch h t0) s = Some s1 \<and> fault s1 = None \<and> m_running (timer s1) \<longrightarrow>
        (\<exists>s2 s3. step (Loop_check (length (loops s))) s1 = Some s2
           \<and> step (Loop_tick (length (loops s)) now) s2 = Some s3
           \<and> ticks s3 = ticks s + 1 \<and> m_render_ready (timer s3)))
   \<and> (fault s = None \<and> consumers s c = C_idle \<and> m_render_ready (timer s) \<longrightarrow>
        (\<exists>s'. step (Can_render c) s = Some s' \<and> consumers s' c = C_idle
           \<and> returned s' c = returned s c + 1 \<and> ticks s' = ticks s))"
proof (intro conjI impI)
  assume a: "step e s = Some s' \<and> (is_start e \<or> is_stop e)"
  then have "\<not> is_tick e" "\<forall>c. e \<noteq> Can_render c \<and> e \<noteq> Can_render_woken c"
    by (auto simp: is_start_def is_stop_def is_tick_def split: event.splits)
  with a show "m_render_ready (timer s') = m_render_ready (timer s)"
    using step_keeps_flag by blast
next
  assume "step (Start_launch h t0) s = Some s1 \<and> fault s1 = None \<and> m_running (timer s1)"
  then show "\<exists>s2 s3. step (Loop_check (length (loops s))) s1 = Some s2
           \<and> step (Loop_tick (length (loops s)) now) s2 = Some s3
           \<and> ticks s3 = ticks s + 1 \<and> m_render_ready (timer s3)"
    by (auto simp add: step_defs nth_append split: if_splits option.splits)
next
  assume "fault s = None \<and> consumers s c = C_idle \<and> m_render_ready (timer s)"
  then show "\<exists>s'. step (Can_render c) s = Some s' \<and> consumers s' c = C_idle
           \<and> returned s' c = returned s c + 1 \<and> ticks s' = ticks s"
    by (simp add: step_defs)
qed

theorem restart_keeps_pending_tick_witness:
  "m_render_ready (timer (the (run first_tick_schedule (init 0))))
   \<and> step (Stop_exchange 0) (the (run first_tick_schedule (init 0))) \<noteq> None
   \<and> m_render_ready (timer (the (step (Stop_exchange 0) (the (run first_tick_schedule (init 0))))))
   \<and> m_render_ready (timer (the (run restart_schedule (init 0))))
   \<and> m_running (timer (the (run restart_schedule (init 0))))
   \<and> fault (the (run restart_schedule (init 0))) = None
   \<and> ticks (the (run (restart_schedule @ [Loop_check 1, Loop_tick 1 8000000]) (init 0))) = 2
   \<and> consumers (the (run restart_schedule (init 0))) 0 = C_idle
   \<and> returned (the (run (restart_schedule @ [Can_render 0]) (init 0))) 0 = 1"
proof -
  define sA where "sA = the (run first_tick_schedule (init 0))"
  define sB where "sB = the (run (butlast restart_schedule) (init 0))"
  define sC where "sC = the (run restart_schedule (init 0))"
  have a: "step (Stop_exchange 0) sA = Some (the (step (Stop_exchange 0) sA))"
    "is_stop (Stop_exchange 0)" "m_render_ready (timer sA)"
    by (simp_all add: sA_def first_tick_schedule_def is_stop_def model_defs)
  have b: "step (Start_launch 0 7000000) sB = Some sC" "fault sC = None" "m_running (timer sC)"
    "length (loops sB) = 1" "ticks sB = 1" "m_render_ready (timer sC)"
    by (simp_all add: sB_def sC_def restart_schedule_def stop_schedule_def
        first_tick_schedule_def model_defs)
  have c: "consumers sC 0 = C_idle" "returned sC 0 = 0"
    "run (restart_schedule @ [Can_render 0]) (init 0) = step (Can_render 0) sC"
    "run (restart_schedule @ [Loop_check 1, Loop_tick 1 8000000]) (init 0)
       = run [Loop_check 1, Loop_tick 1 8000000] sC"
    by (simp_all add: sC_def restart_schedule_def stop_schedule_def
        first_tick_schedule_def model_defs)
  have t1: "m_render_ready (timer (the (step (Stop_exchange 0) sA)))"
    using restart_keeps_pending_tick[where e = "Stop_exchange 0" and s = sA
        and s' = "the (step (Stop_exchange 0) sA)"] a by blast
  have "\<exists>s2 s3. step (Loop_check (length (loops sB))) sC = Some s2
              \<and> step (Loop_tick (length (loops sB)) 8000000) s2 = Some s3
              \<and> ticks s3 = ticks sB + 1"
    using restart_keeps_pending_tick[where h = 0 and ?t0.0 = 7000000 and s = sB and ?s1.0 = sC
        and now = 8000000] b(1,2,3) by blast
  then have t2: "\<exists>s2 s3. step (Loop_check 1) sC = Some s2 \<and> step (Loop_tick 1 8000000) s2 = Some s3
              \<and> ticks s3 = 2"
    by (simp add: b numeral_2_eq_2)
  then have t2': "ticks (the (run [Loop_check 1, Loop_tick 1 8000000] sC)) = 2" by auto
  have t3: "\<exists>s'. step (Can_render 0) sC = Some s' \<and> returned s' 0 = 1"
    using restart_keeps_pending_tick[where s = sC and c = 0, THEN conjunct2, THEN conjunct2]
      b c by auto
  then have t3': "returned (the (step (Can_render 0) sC)) 0 = 1" by auto
  show ?thesis
    using a b c t1 t2' t3'
    unfolding sA_def[symmetric] sC_def[symmetric]
    by auto
qed

end
